theory Spec2Isabelle
  imports Complex_Main "HOL-Library.Word"
begin

section \<open>Asciinema events and the history chunk builder\<close>

text \<open>
  The recording is a sequence of JSON arrays.  A timed event is the triple
  \<open>[timestamp, kind, data]\<close> with kind \<open>'o'\<close> (output), \<open>'i'\<close> (input) or
  \<open>'r'\<close> (resize); the exit event is \<open>['exit', code, sessionId]\<close>.  The kind is
  kept as the string the code compares against, so that a triple of any other kind
  (which the scanner also stores) is a value of the model.
\<close>

datatype asciinema_event =
    Timed real string string
  | Exit int string

fun isOutputEvent :: "asciinema_event \<Rightarrow> bool" where
  "isOutputEvent (Timed t k d) = (k = ''o'')"
| "isOutputEvent (Exit c s) = False"

fun isResizeEvent :: "asciinema_event \<Rightarrow> bool" where
  "isResizeEvent (Timed t k d) = (k = ''r'')"
| "isResizeEvent (Exit c s) = False"

fun isExitEvent :: "asciinema_event \<Rightarrow> bool" where
  "isExitEvent (Timed t k d) = False"
| "isExitEvent (Exit c s) = True"

definition isInputEvent :: "asciinema_event \<Rightarrow> bool" where
  "isInputEvent e = (case e of Timed t k d \<Rightarrow> k = ''i'' | Exit c s \<Rightarrow> False)"

text \<open>\<open>[0, event[1], event[2]]\<close>: the copy with the timestamp zeroed.\<close>

fun normalizedEvent :: "asciinema_event \<Rightarrow> asciinema_event" where
  "normalizedEvent (Timed t k d) = Timed 0 k d"
| "normalizedEvent (Exit c s) = Exit c s"

text \<open>\<open>xs[i] ?? d\<close> for a JavaScript array: an index outside the array reads
  \<open>undefined\<close>.\<close>

definition js_index :: "'a list \<Rightarrow> int \<Rightarrow> 'a option" where
  "js_index xs i = (if 0 \<le> i \<and> i < int (length xs) then Some (xs ! nat i) else None)"

record HistoryChunkTaskPayload =
  p_sessionId :: string
  p_events :: "asciinema_event list"
  p_eventOffsets :: "int list"
  p_baseStartIndex :: int
  p_sendStartIndex :: int
  p_startOffset :: int
  p_fileOffset :: int
  p_initialTailLines :: int
  p_hasMoreHistory :: bool
  p_totalEvents :: int
  p_totalOutputEvents :: int

record HistoryChunkPayload =
  c_type :: string
  c_sessionId :: "string option"
  c_mode :: string
  c_hasMore :: bool
  c_totalEvents :: int
  c_totalOutputEvents :: int
  c_chunkEventCount :: int
  c_chunkOutputEvents :: int
  c_chunkStartOffset :: int
  c_previousOffset :: "int option"
  c_nextOffset :: int
  c_initialTailLines :: int
  c_events :: "asciinema_event list"

record HistoryChunkTaskResult =
  r_payload :: "HistoryChunkPayload option"
  r_chunkOutputEvents :: int
  r_exitEvent :: "asciinema_event option"

text \<open>
  The classification loop \<open>for (i = sendStartIndex; i < events.length; i++)\<close>, run
  over the events still to visit.  The accumulator is the triple of the loop's
  variables \<open>chunkEvents\<close>, \<open>chunkOutputEvents\<close>, \<open>exitEvent\<close>.
\<close>

type_synonym chunk_acc = "asciinema_event list \<times> int \<times> asciinema_event option"

fun classifyEvents :: "asciinema_event list \<Rightarrow> chunk_acc \<Rightarrow> chunk_acc" where
  "classifyEvents [] acc = acc"
| "classifyEvents (event # rest) (chunkEvents, chunkOutputEvents, exitEvent) =
     (if isExitEvent event then
        classifyEvents rest (chunkEvents, chunkOutputEvents, Some event)
      else if isOutputEvent event \<or> isResizeEvent event then
        classifyEvents rest
          (chunkEvents @ [normalizedEvent event],
           (if isOutputEvent event then chunkOutputEvents + 1 else chunkOutputEvents),
           exitEvent)
      else classifyEvents rest (chunkEvents, chunkOutputEvents, exitEvent))"

text \<open>The events the loop visits: indices below 0 read \<open>undefined\<close>, which no
  guard accepts, so the visit starts at \<open>max 0 sendStartIndex\<close>.\<close>

definition eventsFrom :: "asciinema_event list \<Rightarrow> int \<Rightarrow> asciinema_event list" where
  "eventsFrom events sendStartIndex = drop (nat sendStartIndex) events"

definition buildHistoryChunk :: "HistoryChunkTaskPayload \<Rightarrow> HistoryChunkTaskResult" where
  "buildHistoryChunk p =
     (case classifyEvents (eventsFrom (p_events p) (p_sendStartIndex p)) ([], 0, None) of
        (chunkEvents, chunkOutputEvents, exitEvent) \<Rightarrow>
          \<lparr> r_payload =
              (if length chunkEvents > 0 then
                 Some \<lparr> c_type = ''history-chunk'',
                        c_sessionId = Some (p_sessionId p),
                        c_mode = ''tail'',
                        c_hasMore = p_hasMoreHistory p,
                        c_totalEvents = max (p_totalEvents p - p_baseStartIndex p) 0,
                        c_totalOutputEvents = p_totalOutputEvents p,
                        c_chunkEventCount = int (length chunkEvents),
                        c_chunkOutputEvents = chunkOutputEvents,
                        c_chunkStartOffset =
                          (case js_index (p_eventOffsets p) (p_sendStartIndex p) of
                             Some off \<Rightarrow> off | None \<Rightarrow> p_startOffset p),
                        c_previousOffset =
                          (if p_hasMoreHistory p \<and> p_sendStartIndex p > 0
                           then js_index (p_eventOffsets p) (p_sendStartIndex p - 1)
                           else None),
                        c_nextOffset = p_fileOffset p,
                        c_initialTailLines = p_initialTailLines p,
                        c_events = chunkEvents \<rparr>
               else None),
            r_chunkOutputEvents = chunkOutputEvents,
            r_exitEvent = exitEvent \<rparr>)"

lemma classifyEvents_chunk:
  "fst (classifyEvents evs (ce, n, ex)) =
     ce @ map normalizedEvent (filter (\<lambda>e. \<not> isExitEvent e \<and> (isOutputEvent e \<or> isResizeEvent e)) evs)"
  by (induction evs arbitrary: ce n ex) auto

lemma classifyEvents_count:
  "fst (snd (classifyEvents evs (ce, n, ex))) = n + int (length (filter isOutputEvent evs))"
proof (induction evs arbitrary: ce n ex)
  case Nil
  show ?case by simp
next
  case (Cons e evs)
  show ?case by (cases e) (simp_all add: Cons.IH)
qed

lemma classifyEvents_exit:
  "snd (snd (classifyEvents evs (ce, n, ex))) =
     (case filter isExitEvent evs of [] \<Rightarrow> ex | x # xs \<Rightarrow> Some (last (x # xs)))"
proof (induction evs arbitrary: ce n ex)
  case Nil
  show ?case by simp
next
  case (Cons e evs)
  show ?case by (cases e) (simp_all add: Cons.IH split: list.splits)
qed

subsection \<open>Claim C5: classification of the events by the history chunk builder\<close>

definition keptEvents :: "asciinema_event list \<Rightarrow> asciinema_event list" where
  "keptEvents evs = map normalizedEvent (filter (\<lambda>e. isOutputEvent e \<or> isResizeEvent e) evs)"

definition lastExit :: "asciinema_event list \<Rightarrow> asciinema_event option" where
  "lastExit evs = (case filter isExitEvent evs of [] \<Rightarrow> None | x # xs \<Rightarrow> Some (last (x # xs)))"

fun timestampOf :: "asciinema_event \<Rightarrow> real option" where
  "timestampOf (Timed t k d) = Some t"
| "timestampOf (Exit c s) = None"

definition mkPayload :: "asciinema_event list \<Rightarrow> int \<Rightarrow> HistoryChunkTaskPayload" where
  "mkPayload evs start =
     \<lparr> p_sessionId = ''s1'', p_events = evs, p_eventOffsets = [], p_baseStartIndex = 0,
       p_sendStartIndex = start, p_startOffset = 0, p_fileOffset = 0, p_initialTailLines = 0,
       p_hasMoreHistory = False, p_totalEvents = int (length evs), p_totalOutputEvents = 0 \<rparr>"

lemma not_exit_of_kept: "isExitEvent e \<Longrightarrow> \<not> isOutputEvent e \<and> \<not> isResizeEvent e"
  by (cases e) simp_all

lemma filter_kept_eq:
  "filter (\<lambda>e. \<not> isExitEvent e \<and> (isOutputEvent e \<or> isResizeEvent e)) evs =
   filter (\<lambda>e. isOutputEvent e \<or> isResizeEvent e) evs"
  by (rule filter_cong) (use not_exit_of_kept in blast)+

lemma classifyEvents_initial:
  "classifyEvents evs ([], 0, None) =
     (keptEvents evs, int (length (filter isOutputEvent evs)), lastExit evs)"
proof -
  have "fst (classifyEvents evs ([], 0, None)) = keptEvents evs"
    by (simp add: classifyEvents_chunk filter_kept_eq keptEvents_def)
  moreover have "fst (snd (classifyEvents evs ([], 0, None))) = int (length (filter isOutputEvent evs))"
    by (simp add: classifyEvents_count)
  moreover have "snd (snd (classifyEvents evs ([], 0, None))) = lastExit evs"
    by (simp add: classifyEvents_exit lastExit_def)
  ultimately show ?thesis
    by (metis prod.collapse)
qed

lemma keptEvents_members:
  "e \<in> set (keptEvents evs) \<Longrightarrow>
     \<not> isExitEvent e \<and> \<not> isInputEvent e \<and> timestampOf e = Some 0"
proof -
  assume "e \<in> set (keptEvents evs)"
  then obtain x where x: "isOutputEvent x \<or> isResizeEvent x" and e: "e = normalizedEvent x"
    by (auto simp: keptEvents_def)
  show ?thesis
    using x unfolding e by (cases x) (auto simp: isInputEvent_def)
qed

text \<open>
  Claim C5, as amended.  Over the events visited (those from \<open>sendStartIndex\<close> on):
  the \<open>exitEvent\<close> field holds the last exit event visited (\<open>null\<close> when there is
  none) and no exit event is in the chunk; the chunk's events are exactly the output and
  resize events, in order, each with timestamp 0; no input event is in the chunk;
  \<open>chunkOutputEvents\<close> is the number of output events copied; and the payload is
  \<open>null\<close> exactly when no output or resize event was visited, so a payload never
  carries an empty events array.
\<close>

theorem buildHistoryChunk_classifies:
  "r_exitEvent (buildHistoryChunk p) = lastExit (eventsFrom (p_events p) (p_sendStartIndex p))
   \<and> r_chunkOutputEvents (buildHistoryChunk p) =
       int (length (filter isOutputEvent (eventsFrom (p_events p) (p_sendStartIndex p))))
   \<and> (case r_payload (buildHistoryChunk p) of
         None \<Rightarrow> keptEvents (eventsFrom (p_events p) (p_sendStartIndex p)) = []
       | Some c \<Rightarrow>
           c_events c = keptEvents (eventsFrom (p_events p) (p_sendStartIndex p))
           \<and> c_events c \<noteq> []
           \<and> c_chunkEventCount c = int (length (c_events c))
           \<and> c_chunkOutputEvents c = int (length (filter isOutputEvent (c_events c)))
           \<and> c_chunkOutputEvents c = r_chunkOutputEvents (buildHistoryChunk p)
           \<and> (\<forall>e \<in> set (c_events c).
                 \<not> isExitEvent e \<and> \<not> isInputEvent e \<and> timestampOf e = Some 0))"
proof -
  define evs where "evs = eventsFrom (p_events p) (p_sendStartIndex p)"
  have cl: "classifyEvents evs ([], 0, None) =
      (keptEvents evs, int (length (filter isOutputEvent evs)), lastExit evs)"
    by (rule classifyEvents_initial)
  have out_kept: "length (filter isOutputEvent (keptEvents evs)) = length (filter isOutputEvent evs)"
  proof (induction evs)
    case Nil
    show ?case by (simp add: keptEvents_def)
  next
    case (Cons e es)
    then show ?case by (cases e) (auto simp: keptEvents_def)
  qed
  show ?thesis
    unfolding buildHistoryChunk_def evs_def [symmetric] cl
    using keptEvents_members [of _ evs] out_kept
    by (auto simp: Let_def)
qed

theorem buildHistoryChunk_classifies_witness:
  "r_exitEvent (buildHistoryChunk
       (mkPayload [Timed 1 ''o'' ''a'', Timed 2 ''i'' ''k'', Timed 3 ''r'' ''80x24'',
                   Timed 4 ''o'' ''b'', Exit 0 ''s1''] 1)) = Some (Exit 0 ''s1'')
   \<and> r_chunkOutputEvents (buildHistoryChunk
       (mkPayload [Timed 1 ''o'' ''a'', Timed 2 ''i'' ''k'', Timed 3 ''r'' ''80x24'',
                   Timed 4 ''o'' ''b'', Exit 0 ''s1''] 1)) = 1
   \<and> map_option c_events (r_payload (buildHistoryChunk
       (mkPayload [Timed 1 ''o'' ''a'', Timed 2 ''i'' ''k'', Timed 3 ''r'' ''80x24'',
                   Timed 4 ''o'' ''b'', Exit 0 ''s1''] 1)))
       = Some [Timed 0 ''r'' ''80x24'', Timed 0 ''o'' ''b'']"
  using buildHistoryChunk_classifies
    [of "mkPayload [Timed 1 ''o'' ''a'', Timed 2 ''i'' ''k'', Timed 3 ''r'' ''80x24'',
                   Timed 4 ''o'' ''b'', Exit 0 ''s1''] 1"]
  by (simp add: mkPayload_def eventsFrom_def lastExit_def keptEvents_def buildHistoryChunk_def
      split: option.splits)

text \<open>
  As stated, C5 asks that every exit event be returned in \<open>exitEvent\<close>.  With two
  exit events in the slice the first is visited, is an exit event, and is neither the
  returned \<open>exitEvent\<close> nor in the chunk: the single field keeps the last one only.
\<close>

theorem buildHistoryChunk_first_exit_dropped:
  "Exit 0 ''s1'' \<in> set (eventsFrom (p_events (mkPayload [Exit 0 ''s1'', Timed 1 ''o'' ''a'', Exit 1 ''s1''] 0))
                           (p_sendStartIndex (mkPayload [Exit 0 ''s1'', Timed 1 ''o'' ''a'', Exit 1 ''s1''] 0)))
   \<and> isExitEvent (Exit 0 ''s1'')
   \<and> r_exitEvent (buildHistoryChunk (mkPayload [Exit 0 ''s1'', Timed 1 ''o'' ''a'', Exit 1 ''s1''] 0))
       = Some (Exit 1 ''s1'')
   \<and> r_exitEvent (buildHistoryChunk (mkPayload [Exit 0 ''s1'', Timed 1 ''o'' ''a'', Exit 1 ''s1''] 0))
       \<noteq> Some (Exit 0 ''s1'')"
  by (simp add: mkPayload_def eventsFrom_def buildHistoryChunk_def)


section \<open>Stream watcher: replay of existing content to a joining client\<close>

text \<open>
  \<open>sendExistingContent\<close> reads the recording from the stored clear offset, line by
  line, and then replays what follows the last clear.  The file system and the JSON
  parser are outside the program: the model takes the complete lines of the stream, the
  text left after the last newline, and the parser as a function on a line.  Strings are
  UTF-8 byte strings, so \<open>Buffer.byteLength(line, 'utf8')\<close> is \<open>length line\<close>.
\<close>

datatype js_number = Finite real | NonFinite

definition MAX_INITIAL_TAIL_LINES :: int where
  "MAX_INITIAL_TAIL_LINES = 5000"

text \<open>\<open>options?.initialTailLines ?? 0\<close>, then the clamp of lines 921-923.\<close>

definition clampInitialTailLines :: "js_number option \<Rightarrow> int" where
  "clampInitialTailLines requested =
     (case requested of
        None \<Rightarrow> max 0 (min 0 MAX_INITIAL_TAIL_LINES)
      | Some NonFinite \<Rightarrow> 0
      | Some (Finite x) \<Rightarrow> max 0 (min \<lfloor>x\<rfloor> MAX_INITIAL_TAIL_LINES))"

text \<open>The header's width and height are JavaScript numbers; \<open>NonFinite\<close> stands for
  \<open>NaN\<close>, which \<open>Number.parseInt\<close> returns on text that does not start with a number,
  and for the infinities: \<open>JSON.stringify\<close> writes each of them as \<open>null\<close>.\<close>

record AsciinemaHeader =
  h_version :: int
  h_width :: js_number
  h_height :: js_number

record PrunePoint =
  pp_sequence :: string
  pp_position :: int

text \<open>
  The three functions imported from the pruning detector are not part of the sources at
  hand; the scan is modelled for any such functions, passed as a record.
\<close>

record pruning_detector =
  containsPruningSequence :: "string \<Rightarrow> bool"
  findLastPrunePoint :: "string \<Rightarrow> PrunePoint option"
  calculatePruningPositionInFile :: "int \<Rightarrow> string \<Rightarrow> int \<Rightarrow> int"

text \<open>
  What the scan distinguishes in the value \<open>JSON.parse\<close> returns: an object with
  truthy \<open>version\<close>, \<open>width\<close> and \<open>height\<close>; an array that starts with \<open>'exit'\<close> or
  has at least three elements and a number first; anything else.  The parser itself is
  a parameter \<open>parse\<close>; \<open>None\<close> is the thrown SyntaxError.
\<close>

datatype parsed_line =
    ParsedHeader AsciinemaHeader
  | ParsedEvent asciinema_event
  | ParsedOther

type_synonym json_parser = "string \<Rightarrow> parsed_line option"

text \<open>\<open>!line.trim()\<close>: the line is empty or white space only (the ASCII white space;
  on a line of other Unicode spaces only, \<open>JSON.parse\<close> throws, to the same effect).\<close>

definition isWhiteSpace :: "char \<Rightarrow> bool" where
  "isWhiteSpace c = (c \<in> set [CHR '' '', CHR 0x09, CHR 0x0A, CHR 0x0B, CHR 0x0C, CHR 0x0D])"

definition isBlank :: "string \<Rightarrow> bool" where
  "isBlank line = list_all isWhiteSpace line"

fun eventData :: "asciinema_event \<Rightarrow> string" where
  "eventData (Timed t k d) = d"
| "eventData (Exit c s) = s"

record scan_state =
  s_header :: "AsciinemaHeader option"
  s_events :: "asciinema_event list"
  s_eventOffsets :: "int list"
  s_lastClearIndex :: int
  s_lastResizeBeforeClear :: "asciinema_event option"
  s_currentResize :: "asciinema_event option"
  s_fileOffset :: int
  s_lastClearOffset :: int

record ClearResult =
  cr_lastClearIndex :: int
  cr_lastClearOffset :: int
  cr_lastResizeBeforeClear :: "asciinema_event option"

definition processClearSequence ::
  "pruning_detector \<Rightarrow> asciinema_event \<Rightarrow> int \<Rightarrow> int \<Rightarrow> asciinema_event option \<Rightarrow> string
     \<Rightarrow> ClearResult option" where
  "processClearSequence det event eventIndex fileOffset currentResize eventLine =
     (case findLastPrunePoint det (eventData event) of
        None \<Rightarrow> None
      | Some prunePoint \<Rightarrow>
          Some \<lparr> cr_lastClearIndex = eventIndex,
                 cr_lastClearOffset =
                   calculatePruningPositionInFile det fileOffset eventLine (pp_position prunePoint),
                 cr_lastResizeBeforeClear = currentResize \<rparr>)"

text \<open>
  The treatment of a parsed array, the same in the \<open>data\<close> handler (lines 1017-1046)
  and in the \<open>end\<close> handler (lines 1064-1089): \<open>st\<close> is the state with
  \<open>fileOffset\<close> already advanced past the line.
\<close>

definition trackResize :: "asciinema_event \<Rightarrow> scan_state \<Rightarrow> scan_state" where
  "trackResize event st =
     (if isResizeEvent event then st\<lparr>s_currentResize := Some event\<rparr> else st)"

definition checkClear :: "pruning_detector \<Rightarrow> string \<Rightarrow> asciinema_event \<Rightarrow> scan_state \<Rightarrow> scan_state" where
  "checkClear det line event st =
     (if isOutputEvent event \<and> containsPruningSequence det (eventData event) then
        (case processClearSequence det event (int (length (s_events st))) (s_fileOffset st)
                (s_currentResize st) line of
           Some clearResult \<Rightarrow>
             st\<lparr>s_lastClearIndex := cr_lastClearIndex clearResult,
                s_lastClearOffset := cr_lastClearOffset clearResult,
                s_lastResizeBeforeClear := cr_lastResizeBeforeClear clearResult\<rparr>
         | None \<Rightarrow> st)
      else st)"

definition pushEvent :: "asciinema_event \<Rightarrow> int \<Rightarrow> scan_state \<Rightarrow> scan_state" where
  "pushEvent event lineStartOffset st =
     st\<lparr>s_events := s_events st @ [event],
        s_eventOffsets := s_eventOffsets st @ [lineStartOffset]\<rparr>"

definition recordEvent ::
  "pruning_detector \<Rightarrow> string \<Rightarrow> int \<Rightarrow> asciinema_event \<Rightarrow> scan_state \<Rightarrow> scan_state" where
  "recordEvent det line lineStartOffset event st =
     (if isExitEvent event then pushEvent event lineStartOffset st
      else pushEvent event lineStartOffset (checkClear det line event (trackResize event st)))"

text \<open>One complete line in the \<open>data\<close> handler (lines 1002-1052).\<close>

definition scanLine :: "pruning_detector \<Rightarrow> json_parser \<Rightarrow> scan_state \<Rightarrow> string \<Rightarrow> scan_state" where
  "scanLine det parse st line =
     (let lineStartOffset = s_fileOffset st;
          st1 = st\<lparr>s_fileOffset := s_fileOffset st + int (length line) + 1\<rparr>
      in if isBlank line then st1
         else (case parse line of
                 None \<Rightarrow> st1
               | Some (ParsedHeader h) \<Rightarrow> st1\<lparr>s_header := Some h\<rparr>
               | Some (ParsedEvent event) \<Rightarrow> recordEvent det line lineStartOffset event st1
               | Some ParsedOther \<Rightarrow> st1))"

text \<open>The text left in \<open>lineBuffer\<close> when the stream ends (lines 1058-1094): no
  header test here, and the offset advances by the text's bytes only, after the parse.\<close>

definition scanRemainder :: "pruning_detector \<Rightarrow> json_parser \<Rightarrow> scan_state \<Rightarrow> string \<Rightarrow> scan_state" where
  "scanRemainder det parse st lineBuffer =
     (if isBlank lineBuffer then st
      else (case parse lineBuffer of
              None \<Rightarrow> st
            | Some parsed \<Rightarrow>
                (let lineStartOffset = s_fileOffset st;
                     st1 = st\<lparr>s_fileOffset := s_fileOffset st + int (length lineBuffer)\<rparr>
                 in case parsed of
                      ParsedEvent event \<Rightarrow> recordEvent det lineBuffer lineStartOffset event st1
                    | _ \<Rightarrow> st1)))"

definition initialScanState :: "AsciinemaHeader option \<Rightarrow> int \<Rightarrow> scan_state" where
  "initialScanState header startOffset =
     \<lparr> s_header = header, s_events = [], s_eventOffsets = [], s_lastClearIndex = -1,
       s_lastResizeBeforeClear = None, s_currentResize = None,
       s_fileOffset = startOffset, s_lastClearOffset = startOffset \<rparr>"

definition analyseStream ::
  "pruning_detector \<Rightarrow> json_parser \<Rightarrow> scan_state \<Rightarrow> string list \<Rightarrow> string \<Rightarrow> scan_state" where
  "analyseStream det parse st0 lines lineBuffer =
     scanRemainder det parse (foldl (scanLine det parse) st0 lines) lineBuffer"


subsection \<open>Replay after the scan\<close>

text \<open>\<open>text.split('x')\<close> on byte strings.\<close>

fun splitOn :: "char \<Rightarrow> string \<Rightarrow> string list" where
  "splitOn sep [] = [[]]"
| "splitOn sep (c # cs) =
     (if c = sep then [] # splitOn sep cs
      else (case splitOn sep cs of
              [] \<Rightarrow> [[c]]
            | part # parts \<Rightarrow> (c # part) # parts))"

text \<open>
  \<open>Number.parseInt(text, 10)\<close> is the library's, as \<open>JSON.parse\<close> is; it is a parameter
  \<open>parseInt\<close> of the model, from the text to the number returned.
\<close>

type_synonym int_parser = "string \<Rightarrow> js_number"

text \<open>\<open>Number.parseInt(dimensions[i], 10)\<close>: a missing part is \<open>undefined\<close>, which
  \<open>Number.parseInt\<close> reads as the text \<open>'undefined'\<close>.\<close>

definition parseDimension :: "int_parser \<Rightarrow> string list \<Rightarrow> int \<Rightarrow> js_number" where
  "parseDimension parseInt dimensions i =
     parseInt (case js_index dimensions i of None \<Rightarrow> ''undefined'' | Some text \<Rightarrow> text)"

text \<open>Lines 1114-1123: the header written to the client.\<close>

definition headerToSend :: "int_parser \<Rightarrow> scan_state \<Rightarrow> AsciinemaHeader option" where
  "headerToSend parseInt st =
     (case s_header st of
        None \<Rightarrow> None
      | Some header \<Rightarrow>
          (case s_lastResizeBeforeClear st of
             Some resize \<Rightarrow>
               if s_lastClearIndex st \<ge> 0 then
                 (let dimensions = splitOn CHR ''x'' (eventData resize)
                  in Some (header\<lparr>h_width := parseDimension parseInt dimensions 0,
                                   h_height := parseDimension parseInt dimensions 1\<rparr>))
               else Some header
           | None \<Rightarrow> Some header))"

text \<open>
  Lines 1130-1142, the backward scan
  \<open>for (idx = events.length - 1; idx >= baseStartIndex; idx--)\<close>; the arguments are
  the loop's variables \<open>idx\<close>, \<open>outputCounter\<close> and \<open>sendStartIndex\<close>, the result is
  \<open>sendStartIndex\<close> when the loop is left.
\<close>

definition isOutputAt :: "asciinema_event list \<Rightarrow> int \<Rightarrow> bool" where
  "isOutputAt events idx = (case js_index events idx of None \<Rightarrow> False | Some e \<Rightarrow> isOutputEvent e)"

function tailScan :: "asciinema_event list \<Rightarrow> int \<Rightarrow> int \<Rightarrow> int \<Rightarrow> int \<Rightarrow> int \<Rightarrow> int" where
  "tailScan events baseStartIndex initialTailLines idx outputCounter sendStartIndex =
     (if idx \<ge> baseStartIndex then
        (if isOutputAt events idx then
           (if outputCounter + 1 \<ge> initialTailLines then idx
            else tailScan events baseStartIndex initialTailLines (idx - 1) (outputCounter + 1) idx)
         else tailScan events baseStartIndex initialTailLines (idx - 1) outputCounter idx)
      else sendStartIndex)"
  by pat_completeness auto
termination
  by (relation "measure (\<lambda>(events, baseStartIndex, initialTailLines, idx, outputCounter, sendStartIndex).
        nat (idx - baseStartIndex + 1))") auto

declare tailScan.simps [simp del]

datatype sse_message =
    HeaderMessage AsciinemaHeader
  | ChunkMessage HistoryChunkPayload
  | EventMessage asciinema_event

record SessionInfo =
  si_lastClearOffset :: "int option"

record replay_result =
  written :: "sse_message list"
  ended :: bool
  saved :: "SessionInfo option"

definition totalOutputEventsFrom :: "asciinema_event list \<Rightarrow> int \<Rightarrow> int" where
  "totalOutputEventsFrom events baseStartIndex =
     int (length (filter isOutputEvent (eventsFrom events baseStartIndex)))"

text \<open>Lines 1129-1183: the tail chunk, built when a tail was requested and there are
  events after the boundary.\<close>

definition tailSendStartIndex :: "asciinema_event list \<Rightarrow> int \<Rightarrow> int \<Rightarrow> int" where
  "tailSendStartIndex events baseStartIndex initialTailLines =
     max (tailScan events baseStartIndex initialTailLines (int (length events) - 1) 0
            (int (length events) - 1))
         baseStartIndex"

definition tailChunk ::
  "scan_state \<Rightarrow> int \<Rightarrow> int \<Rightarrow> int \<Rightarrow> HistoryChunkPayload \<times> asciinema_event option" where
  "tailChunk st baseStartIndex startOffset initialTailLines =
     (let events = s_events st;
          eventOffsets = s_eventOffsets st;
          sendStartIndex = tailSendStartIndex events baseStartIndex initialTailLines;
          hasMoreHistory = (sendStartIndex > baseStartIndex)
      in case classifyEvents (eventsFrom events sendStartIndex) ([], 0, None) of
           (chunkEvents, chunkOutputEvents, exitEventToSend) \<Rightarrow>
             (\<lparr> c_type = ''history-chunk'',
                c_sessionId = None,
                c_mode = ''tail'',
                c_hasMore = hasMoreHistory,
                c_totalEvents = max (int (length events) - baseStartIndex) 0,
                c_totalOutputEvents = totalOutputEventsFrom events baseStartIndex,
                c_chunkEventCount = int (length chunkEvents),
                c_chunkOutputEvents = chunkOutputEvents,
                c_chunkStartOffset =
                  (case js_index eventOffsets sendStartIndex of
                     Some off \<Rightarrow> off | None \<Rightarrow> startOffset),
                c_previousOffset =
                  (if hasMoreHistory \<and> sendStartIndex > 0
                   then js_index eventOffsets (sendStartIndex - 1) else None),
                c_nextOffset = s_fileOffset st,
                c_initialTailLines = initialTailLines,
                c_events = chunkEvents \<rparr>,
              exitEventToSend))"

text \<open>Lines 1208-1232: without a tail request every event after the boundary is
  written, exit events in place, output and resize events with timestamp 0.\<close>

definition legacyMessages :: "asciinema_event list \<Rightarrow> sse_message list" where
  "legacyMessages evs =
     map EventMessage
       (map (\<lambda>e. if isExitEvent e then e else normalizedEvent e)
          (filter (\<lambda>e. isExitEvent e \<or> isOutputEvent e \<or> isResizeEvent e) evs))"

text \<open>Line 1097: the index of the first event after the last clear.\<close>

definition baseStartIndexOf :: "scan_state \<Rightarrow> int" where
  "baseStartIndexOf st = (if s_lastClearIndex st \<ge> 0 then s_lastClearIndex st + 1 else 0)"

text \<open>Lines 1096-1233: what the \<open>end\<close> handler does once the stream is analysed.\<close>

definition replay ::
  "int_parser \<Rightarrow> scan_state \<Rightarrow> SessionInfo option \<Rightarrow> int \<Rightarrow> int \<Rightarrow> replay_result" where
  "replay parseInt st sessionInfo startOffset initialTailLines =
     (let lastClearIndex = s_lastClearIndex st;
          events = s_events st;
          baseStartIndex = baseStartIndexOf st;
          savedInfo = (if lastClearIndex \<ge> 0
                       then map_option (\<lambda>info. info\<lparr>si_lastClearOffset := Some (s_lastClearOffset st)\<rparr>)
                              sessionInfo
                       else None);
          headerMessages = (case headerToSend parseInt st of
                              None \<Rightarrow> [] | Some h \<Rightarrow> [HeaderMessage h])
      in if initialTailLines > 0 \<and> int (length events) > baseStartIndex then
           (case tailChunk st baseStartIndex startOffset initialTailLines of
              (payload, exitEventToSend) \<Rightarrow>
                \<lparr> written = headerMessages @ [ChunkMessage payload]
                     @ (case exitEventToSend of None \<Rightarrow> [] | Some e \<Rightarrow> [EventMessage e]),
                  ended = (exitEventToSend \<noteq> None),
                  saved = savedInfo \<rparr>)
         else
           \<lparr> written = headerMessages @ legacyMessages (eventsFrom events baseStartIndex),
             ended = (\<exists>e \<in> set (eventsFrom events baseStartIndex). isExitEvent e),
             saved = savedInfo \<rparr>)"

text \<open>Lines 920-933 and 980-996: the tail size, the start offset and the whole
  analysis; \<open>fileSize\<close> is \<open>None\<close> when the stream file does not exist.\<close>

definition startOffsetOf :: "SessionInfo option \<Rightarrow> int option \<Rightarrow> int" where
  "startOffsetOf sessionInfo fileSize =
     (let startOffset = (case sessionInfo of
                           None \<Rightarrow> 0
                         | Some info \<Rightarrow> (case si_lastClearOffset info of None \<Rightarrow> 0 | Some off \<Rightarrow> off))
      in case fileSize of None \<Rightarrow> startOffset | Some statSize \<Rightarrow> min startOffset statSize)"

definition analysed ::
  "pruning_detector \<Rightarrow> json_parser \<Rightarrow> SessionInfo option \<Rightarrow> int option \<Rightarrow> AsciinemaHeader option
     \<Rightarrow> string list \<Rightarrow> string \<Rightarrow> scan_state" where
  "analysed det parse sessionInfo fileSize header lines lineBuffer =
     analyseStream det parse (initialScanState header (startOffsetOf sessionInfo fileSize))
       lines lineBuffer"

definition sendExistingContent ::
  "pruning_detector \<Rightarrow> json_parser \<Rightarrow> int_parser \<Rightarrow> SessionInfo option \<Rightarrow> int option
     \<Rightarrow> AsciinemaHeader option \<Rightarrow> string list \<Rightarrow> string \<Rightarrow> js_number option \<Rightarrow> replay_result" where
  "sendExistingContent det parse parseInt sessionInfo fileSize header lines lineBuffer requested =
     (let initialTailLines = clampInitialTailLines requested;
          startOffset = startOffsetOf sessionInfo fileSize;
          st = analysed det parse sessionInfo fileSize header lines lineBuffer
      in replay parseInt st sessionInfo startOffset initialTailLines)"


text \<open>The history chunks among the messages written to the client.\<close>

fun chunkOf :: "sse_message \<Rightarrow> HistoryChunkPayload option" where
  "chunkOf (ChunkMessage c) = Some c"
| "chunkOf (HeaderMessage h) = None"
| "chunkOf (EventMessage e) = None"

definition sentChunks :: "replay_result \<Rightarrow> HistoryChunkPayload list" where
  "sentChunks r = List.map_filter chunkOf (written r)"

subsection \<open>An example recording\<close>

text \<open>
  Modelled from the spec: the pruning detector, which the sources at hand only import.
  Following the spec's paragraph on pruning detection, the instance recognises the
  clear sequence \<open>ESC [ 2 J\<close> in an event's text, and places the clear at the line's
  starting file offset plus the byte length of the part of the line that precedes the
  sequence (at the line's start when the line does not hold it); in the line the
  sequence is written with its JSON escape, \<open>\u001b[2J\<close>.
  The caller passes the offset reached after the line and its newline, so the line
  starts at \<open>fileOffset - length eventLine - 1\<close>.  The instance is used in the examples
  only; every theorem below holds for any detector.
\<close>

definition clearSequence :: string where
  "clearSequence = [CHR 0x1B, CHR ''['', CHR ''2'', CHR ''J'']"

definition escapedClearSequence :: string where
  "escapedClearSequence = CHR 0x5C # ''u001b[2J''"

fun lastOccurrence :: "string \<Rightarrow> string \<Rightarrow> nat \<Rightarrow> nat option" where
  "lastOccurrence pat [] i = None"
| "lastOccurrence pat (c # cs) i =
     (case lastOccurrence pat cs (Suc i) of
        Some j \<Rightarrow> Some j
      | None \<Rightarrow> if take (length pat) (c # cs) = pat then Some i else None)"

definition exampleDetector :: pruning_detector where
  "exampleDetector =
     \<lparr> containsPruningSequence = (\<lambda>text. lastOccurrence clearSequence text 0 \<noteq> None),
       findLastPrunePoint = (\<lambda>text.
          map_option (\<lambda>i. \<lparr> pp_sequence = clearSequence, pp_position = int i \<rparr>)
            (lastOccurrence clearSequence text 0)),
       calculatePruningPositionInFile = (\<lambda>fileOffset eventLine position.
          (let lineStart = fileOffset - int (length eventLine) - 1
           in case lastOccurrence escapedClearSequence eventLine 0 of
                Some prefixLength \<Rightarrow> lineStart + int prefixLength
              | None \<Rightarrow> lineStart)) \<rparr>"

text \<open>The lines of the example recordings, and what \<open>JSON.parse\<close> makes of them.\<close>

definition lineHeader :: string where \<open>lineHeader = ''{"version":2,"width":80,"height":24}''\<close>
definition lineOutA :: string where \<open>lineOutA = ''[1,"o","a"]''\<close>
definition lineOutB :: string where \<open>lineOutB = ''[2,"o","b"]''\<close>
definition lineOutC :: string where \<open>lineOutC = ''[3,"o","c"]''\<close>
definition lineResize :: string where \<open>lineResize = ''[4,"r","100x30"]''\<close>
definition lineResize2 :: string where \<open>lineResize2 = ''[5,"r","120x40"]''\<close>
definition lineClear :: string where
  \<open>lineClear = ''[6,"o","'' @ [CHR 0x5C] @ ''u001b[2J"]''\<close>
definition lineClear2 :: string where
  \<open>lineClear2 = ''[7,"o","x'' @ [CHR 0x5C] @ ''u001b[2Jy"]''\<close>
definition lineInput :: string where \<open>lineInput = ''[8,"i","k"]''\<close>
definition lineExit :: string where \<open>lineExit = ''["exit",0,"s1"]''\<close>

definition exampleHeader :: AsciinemaHeader where
  "exampleHeader = \<lparr> h_version = 2, h_width = Finite 80, h_height = Finite 24 \<rparr>"

definition dataClear :: string where
  "dataClear = clearSequence"

definition dataClear2 :: string where
  "dataClear2 = CHR ''x'' # clearSequence @ [CHR ''y'']"

definition exampleParse :: json_parser where
  "exampleParse = map_of
     [(lineHeader, ParsedHeader exampleHeader),
      (lineOutA, ParsedEvent (Timed 1 ''o'' ''a'')),
      (lineOutB, ParsedEvent (Timed 2 ''o'' ''b'')),
      (lineOutC, ParsedEvent (Timed 3 ''o'' ''c'')),
      (lineResize, ParsedEvent (Timed 4 ''r'' ''100x30'')),
      (lineResize2, ParsedEvent (Timed 5 ''r'' ''120x40'')),
      (lineClear, ParsedEvent (Timed 6 ''o'' dataClear)),
      (lineClear2, ParsedEvent (Timed 7 ''o'' dataClear2)),
      (lineInput, ParsedEvent (Timed 8 ''i'' ''k'')),
      (lineExit, ParsedEvent (Exit 0 ''s1''))]"

text \<open>What \<open>Number.parseInt\<close> returns on the dimensions of the example recordings, and
  on text without digits.\<close>

definition exampleParseInt :: int_parser where
  "exampleParseInt text =
     (case map_of [(''100'', Finite 100), (''30'', Finite 30), (''120'', Finite 120),
                   (''40'', Finite 40)] text of
        Some v \<Rightarrow> v
      | None \<Rightarrow> NonFinite)"

definition streamSize :: "string list \<Rightarrow> string \<Rightarrow> int" where
  "streamSize lines lineBuffer = (\<Sum>l\<leftarrow>lines. int (length l) + 1) + int (length lineBuffer)"

lemmas example_defs =
  exampleDetector_def clearSequence_def escapedClearSequence_def dataClear_def dataClear2_def exampleParse_def lineHeader_def lineOutA_def
  lineOutB_def lineOutC_def lineResize_def lineResize2_def lineClear_def lineClear2_def
  lineInput_def lineExit_def

lemmas replay_defs =
  sendExistingContent_def analysed_def analyseStream_def scanLine_def scanRemainder_def
  recordEvent_def pushEvent_def checkClear_def trackResize_def processClearSequence_def
  initialScanState_def startOffsetOf_def clampInitialTailLines_def MAX_INITIAL_TAIL_LINES_def
  replay_def baseStartIndexOf_def headerToSend_def tailChunk_def tailSendStartIndex_def
  totalOutputEventsFrom_def eventsFrom_def isBlank_def isWhiteSpace_def isOutputAt_def
  js_index_def sentChunks_def legacyMessages_def List.map_filter_def

subsection \<open>The scan, line by line\<close>

text \<open>The event that the scan records for a line, the lines that hold a clear sequence
  by the scan's test, and the last resize event among the events scanned.\<close>

definition lineEvent :: "json_parser \<Rightarrow> string \<Rightarrow> asciinema_event option" where
  "lineEvent parse line =
     (if isBlank line then None
      else (case parse line of Some (ParsedEvent e) \<Rightarrow> Some e | _ \<Rightarrow> None))"

definition lineEvents :: "json_parser \<Rightarrow> string list \<Rightarrow> asciinema_event list" where
  "lineEvents parse lines = List.map_filter (lineEvent parse) lines"

definition isClearMatch :: "pruning_detector \<Rightarrow> json_parser \<Rightarrow> string \<Rightarrow> bool" where
  "isClearMatch det parse line =
     (case lineEvent parse line of
        None \<Rightarrow> False
      | Some e \<Rightarrow> isOutputEvent e \<and> containsPruningSequence det (eventData e)
                  \<and> findLastPrunePoint det (eventData e) \<noteq> None)"

definition lastResizeIn :: "asciinema_event list \<Rightarrow> asciinema_event option \<Rightarrow> asciinema_event option" where
  "lastResizeIn evs current =
     (if filter isResizeEvent evs = [] then current
      else Some (last (filter isResizeEvent evs)))"

definition recordedClear :: "scan_state \<Rightarrow> ClearResult" where
  "recordedClear st =
     \<lparr> cr_lastClearIndex = s_lastClearIndex st, cr_lastClearOffset = s_lastClearOffset st,
       cr_lastResizeBeforeClear = s_lastResizeBeforeClear st \<rparr>"

definition clearAt ::
  "pruning_detector \<Rightarrow> json_parser \<Rightarrow> int \<Rightarrow> string list \<Rightarrow> string \<Rightarrow> bool \<Rightarrow> ClearResult option" where
  "clearAt det parse startOffset before line terminated =
     (case lineEvent parse line of
        None \<Rightarrow> None
      | Some e \<Rightarrow>
          (case findLastPrunePoint det (eventData e) of
             None \<Rightarrow> None
           | Some prunePoint \<Rightarrow>
               Some \<lparr> cr_lastClearIndex = int (length (lineEvents parse before)),
                      cr_lastClearOffset =
                        calculatePruningPositionInFile det
                          (startOffset + streamSize before line + (if terminated then 1 else 0))
                          line (pp_position prunePoint),
                      cr_lastResizeBeforeClear = lastResizeIn (lineEvents parse before) None \<rparr>))"

lemma recordEvent_events: "s_events (recordEvent det line off e st) = s_events st @ [e]"
  by (simp add: recordEvent_def pushEvent_def checkClear_def trackResize_def split: option.splits)

lemma recordEvent_offset: "s_fileOffset (recordEvent det line off e st) = s_fileOffset st"
  by (simp add: recordEvent_def pushEvent_def checkClear_def trackResize_def split: option.splits)

lemma recordEvent_resize:
  "s_currentResize (recordEvent det line off e st) =
     (if isResizeEvent e then Some e else s_currentResize st)"
  by (cases e) (simp_all add: recordEvent_def pushEvent_def checkClear_def trackResize_def split: option.splits)

lemma recordEvent_clear:
  "recordedClear (recordEvent det line off e st) =
     (if isOutputEvent e \<and> containsPruningSequence det (eventData e) then
        (case findLastPrunePoint det (eventData e) of
           None \<Rightarrow> recordedClear st
         | Some pp \<Rightarrow>
             \<lparr> cr_lastClearIndex = int (length (s_events st)),
               cr_lastClearOffset = calculatePruningPositionInFile det (s_fileOffset st) line (pp_position pp),
               cr_lastResizeBeforeClear = s_currentResize st \<rparr>)
      else recordedClear st)"
  by (cases e) (simp_all add: recordEvent_def pushEvent_def checkClear_def trackResize_def
      processClearSequence_def recordedClear_def split: option.splits)

lemma scanLine_events: "s_events (scanLine det parse st l) = s_events st @ lineEvents parse [l]"
  by (simp add: scanLine_def Let_def lineEvents_def lineEvent_def recordEvent_events
      List.map_filter_simps split: option.splits parsed_line.splits)

lemma scanLine_offset: "s_fileOffset (scanLine det parse st l) = s_fileOffset st + int (length l) + 1"
  by (simp add: scanLine_def Let_def recordEvent_offset split: option.splits parsed_line.splits)

lemma lastResizeIn_single:
  "lastResizeIn (case x of None \<Rightarrow> [] | Some e \<Rightarrow> [e]) cur =
     (case x of None \<Rightarrow> cur | Some e \<Rightarrow> if isResizeEvent e then Some e else cur)"
  by (simp add: lastResizeIn_def split: option.splits)

lemma scanLine_resize:
  "s_currentResize (scanLine det parse st l) =
     (case lineEvent parse l of
        None \<Rightarrow> s_currentResize st
      | Some e \<Rightarrow> if isResizeEvent e then Some e else s_currentResize st)"
  by (simp add: scanLine_def Let_def lineEvent_def recordEvent_resize
      split: option.splits parsed_line.splits)

lemma scanLine_Some:
  "lineEvent parse l = Some e \<Longrightarrow>
     scanLine det parse st l =
       recordEvent det l (s_fileOffset st) e (st\<lparr>s_fileOffset := s_fileOffset st + int (length l) + 1\<rparr>)"
  by (simp add: scanLine_def Let_def lineEvent_def split: option.splits parsed_line.splits if_splits)

lemma scanLine_None:
  "lineEvent parse l = None \<Longrightarrow> recordedClear (scanLine det parse st l) = recordedClear st"
  by (simp add: scanLine_def Let_def lineEvent_def recordedClear_def
      split: option.splits parsed_line.splits if_splits)

lemma scanLine_clear:
  "recordedClear (scanLine det parse st l) =
     (if isClearMatch det parse l then
        \<lparr> cr_lastClearIndex = int (length (s_events st)),
          cr_lastClearOffset = calculatePruningPositionInFile det (s_fileOffset st + int (length l) + 1) l
             (pp_position (the (findLastPrunePoint det (eventData (the (lineEvent parse l)))))),
          cr_lastResizeBeforeClear = s_currentResize st \<rparr>
      else recordedClear st)"
proof (cases "lineEvent parse l")
  case None
  then show ?thesis by (simp add: scanLine_None isClearMatch_def)
next
  case (Some e)
  have "recordedClear (st\<lparr>s_fileOffset := s_fileOffset st + int (length l) + 1\<rparr>) = recordedClear st"
    by (simp add: recordedClear_def)
  then show ?thesis
    by (auto simp add: scanLine_Some [OF Some] recordEvent_clear isClearMatch_def Some
        split: option.splits)
qed

lemma foldl_scanLine_events:
  "s_events (foldl (scanLine det parse) st lines) = s_events st @ lineEvents parse lines"
proof (induction lines arbitrary: st)
  case Nil
  show ?case by (simp add: lineEvents_def List.map_filter_simps)
next
  case (Cons l lines)
  have "lineEvents parse (l # lines) = lineEvents parse [l] @ lineEvents parse lines"
    by (simp add: lineEvents_def List.map_filter_def)
  then show ?case by (simp add: Cons.IH scanLine_events)
qed

lemma foldl_scanLine_offset:
  "s_fileOffset (foldl (scanLine det parse) st lines) = s_fileOffset st + streamSize lines []"
  by (induction lines arbitrary: st) (simp_all add: streamSize_def scanLine_offset)

lemma lastResizeIn_append:
  "lastResizeIn (xs @ ys) cur = lastResizeIn ys (lastResizeIn xs cur)"
  by (simp add: lastResizeIn_def)

lemma foldl_scanLine_resize:
  "s_currentResize (foldl (scanLine det parse) st lines) =
     lastResizeIn (lineEvents parse lines) (s_currentResize st)"
proof (induction lines arbitrary: st)
  case Nil
  show ?case by (simp add: lineEvents_def List.map_filter_simps lastResizeIn_def)
next
  case (Cons l lines)
  have split: "lineEvents parse (l # lines) = lineEvents parse [l] @ lineEvents parse lines"
    by (simp add: lineEvents_def List.map_filter_def)
  have "s_currentResize (scanLine det parse st l) = lastResizeIn (lineEvents parse [l]) (s_currentResize st)"
    by (simp add: scanLine_resize lineEvents_def List.map_filter_simps lastResizeIn_def
        split: option.splits)
  then show ?case
    by (simp add: Cons.IH split lastResizeIn_append)
qed

lemma foldl_scanLine_no_clear:
  "\<forall>l \<in> set lines. \<not> isClearMatch det parse l \<Longrightarrow>
     recordedClear (foldl (scanLine det parse) st lines) = recordedClear st"
  by (induction lines arbitrary: st) (simp_all add: scanLine_clear)


subsection \<open>Claim C8: the last clear sequence wins\<close>

lemma map_filter_app: "List.map_filter f (xs @ ys) = List.map_filter f xs @ List.map_filter f ys"
  by (simp add: List.map_filter_def)

fun headerOf :: "sse_message \<Rightarrow> AsciinemaHeader option" where
  "headerOf (HeaderMessage h) = Some h"
| "headerOf (ChunkMessage c) = None"
| "headerOf (EventMessage e) = None"

definition sentHeaders :: "replay_result \<Rightarrow> AsciinemaHeader list" where
  "sentHeaders r = List.map_filter headerOf (written r)"

text \<open>The header with width and height taken from a resize event: the two parts of its
  text around the first \<open>x\<close>, each as \<open>Number.parseInt\<close> reads it.\<close>

definition rewrittenHeader ::
  "int_parser \<Rightarrow> AsciinemaHeader \<Rightarrow> asciinema_event option \<Rightarrow> AsciinemaHeader" where
  "rewrittenHeader parseInt h resize =
     (case resize of
        None \<Rightarrow> h
      | Some r \<Rightarrow> h\<lparr>h_width := parseDimension parseInt (splitOn CHR ''x'' (eventData r)) 0,
                     h_height := parseDimension parseInt (splitOn CHR ''x'' (eventData r)) 1\<rparr>)"

lemma scanRemainder_clear:
  "recordedClear (scanRemainder det parse st rest) =
     (if isClearMatch det parse rest then
        \<lparr> cr_lastClearIndex = int (length (s_events st)),
          cr_lastClearOffset = calculatePruningPositionInFile det (s_fileOffset st + int (length rest)) rest
             (pp_position (the (findLastPrunePoint det (eventData (the (lineEvent parse rest)))))),
          cr_lastResizeBeforeClear = s_currentResize st \<rparr>
      else recordedClear st)"
proof (cases "lineEvent parse rest")
  case None
  then have "recordedClear (scanRemainder det parse st rest) = recordedClear st"
    by (simp add: scanRemainder_def Let_def lineEvent_def recordedClear_def
      split: option.splits parsed_line.splits if_splits)
  then show ?thesis using None by (simp add: isClearMatch_def)
next
  case (Some e)
  then have "scanRemainder det parse st rest =
      recordEvent det rest (s_fileOffset st) e (st\<lparr>s_fileOffset := s_fileOffset st + int (length rest)\<rparr>)"
    by (simp add: scanRemainder_def Let_def lineEvent_def split: option.splits parsed_line.splits if_splits)
  moreover have "recordedClear (st\<lparr>s_fileOffset := s_fileOffset st + int (length rest)\<rparr>) = recordedClear st"
    by (simp add: recordedClear_def)
  ultimately show ?thesis
    by (auto simp add: recordEvent_clear isClearMatch_def Some split: option.splits)
qed

lemma scanRemainder_header: "s_header (scanRemainder det parse st rest) = s_header st"
  by (simp add: scanRemainder_def Let_def recordEvent_def pushEvent_def checkClear_def trackResize_def
      split: option.splits parsed_line.splits)

lemma headerToSend_recorded:
  "headerToSend parseInt st =
     (case s_header st of
        None \<Rightarrow> None
      | Some h \<Rightarrow> Some (if cr_lastClearIndex (recordedClear st) \<ge> 0
                        then rewrittenHeader parseInt h (cr_lastResizeBeforeClear (recordedClear st)) else h))"
  by (simp add: headerToSend_def recordedClear_def rewrittenHeader_def Let_def split: option.splits)

lemma headerOf_legacy: "List.map_filter headerOf (legacyMessages evs) = []"
  by (simp add: legacyMessages_def List.map_filter_def filter_empty_conv)

lemma headerOf_exit:
  "List.map_filter headerOf (case e of None \<Rightarrow> [] | Some x \<Rightarrow> [EventMessage x]) = []"
  by (cases e) (simp_all add: List.map_filter_def)

lemma headerOf_header:
  "List.map_filter headerOf (case h of None \<Rightarrow> [] | Some x \<Rightarrow> [HeaderMessage x]) =
     (case h of None \<Rightarrow> [] | Some x \<Rightarrow> [x])"
  by (cases h) (simp_all add: List.map_filter_def)

lemma replay_sentHeaders:
  "sentHeaders (replay parseInt st info so n) = (case headerToSend parseInt st of None \<Rightarrow> [] | Some h \<Rightarrow> [h])"
proof (cases "0 < n \<and> baseStartIndexOf st < int (length (s_events st))")
  case True
  obtain payload ex where tc: "tailChunk st (baseStartIndexOf st) so n = (payload, ex)"
    by (cases "tailChunk st (baseStartIndexOf st) so n")
  have "written (replay parseInt st info so n) =
      (case headerToSend parseInt st of None \<Rightarrow> [] | Some h \<Rightarrow> [HeaderMessage h]) @ [ChunkMessage payload]
        @ (case ex of None \<Rightarrow> [] | Some e \<Rightarrow> [EventMessage e])"
    unfolding replay_def Let_def if_P [OF True] by (simp add: tc)
  then show ?thesis
    by (simp add: sentHeaders_def map_filter_app headerOf_header headerOf_exit List.map_filter_simps)
next
  case False
  have "written (replay parseInt st info so n) =
      (case headerToSend parseInt st of None \<Rightarrow> [] | Some h \<Rightarrow> [HeaderMessage h])
        @ legacyMessages (eventsFrom (s_events st) (baseStartIndexOf st))"
    unfolding replay_def Let_def if_not_P [OF False] by simp
  then show ?thesis
    by (simp add: sentHeaders_def map_filter_app headerOf_header headerOf_legacy)
qed

text \<open>
  Claim C8.  Let \<open>st\<close> be the state after the scan of the lines and of the text left at
  the end of the stream.  If a line \<open>l\<close> holds a clear sequence and nothing after it
  does, whatever came before, the recorded \<open>lastClearIndex\<close> is the index of \<open>l\<close>'s
  event, \<open>lastClearOffset\<close> is the position computed for \<open>l\<close>, and
  \<open>lastResizeBeforeClear\<close> is the last resize event scanned before \<open>l\<close>; the header
  written to the client is the recording's header with width and height read by
  \<open>Number.parseInt\<close> from that resize event (and unchanged when there was none).  The same
  holds when the last clear sequence is in the text left at the end of the stream.
\<close>

theorem last_clear_wins:
  assumes st: "st = analysed det parse info fsz header lines rest"
    and start: "start = startOffsetOf info fsz"
    and r: "r = sendExistingContent det parse parseInt info fsz header lines rest requested"
  shows "(lines = pre @ l # post \<and> isClearMatch det parse l
            \<and> (\<forall>l' \<in> set post. \<not> isClearMatch det parse l') \<and> \<not> isClearMatch det parse rest
          \<longrightarrow> Some (recordedClear st) = clearAt det parse start pre l True
              \<and> sentHeaders r =
                  (case s_header st of
                     None \<Rightarrow> []
                   | Some h \<Rightarrow> [rewrittenHeader parseInt h (lastResizeIn (lineEvents parse pre) None)]))
       \<and> (isClearMatch det parse rest
          \<longrightarrow> Some (recordedClear st) = clearAt det parse start lines rest False
              \<and> sentHeaders r =
                  (case s_header st of
                     None \<Rightarrow> []
                   | Some h \<Rightarrow> [rewrittenHeader parseInt h (lastResizeIn (lineEvents parse lines) None)]))"
proof (intro conjI impI)
  define st0 where "st0 = initialScanState header start"
  have init: "s_events st0 = []" "s_fileOffset st0 = start" "s_currentResize st0 = None"
    by (simp_all add: st0_def initialScanState_def)
  have st': "st = scanRemainder det parse (foldl (scanLine det parse) st0 lines) rest"
    by (simp add: st analysed_def analyseStream_def st0_def start)
  have sent: "sentHeaders r = (case headerToSend parseInt st of None \<Rightarrow> [] | Some h \<Rightarrow> [h])"
    by (simp add: r sendExistingContent_def Let_def replay_sentHeaders st)
  {
    assume a: "lines = pre @ l # post \<and> isClearMatch det parse l
            \<and> (\<forall>l' \<in> set post. \<not> isClearMatch det parse l') \<and> \<not> isClearMatch det parse rest"
    define s1 where "s1 = foldl (scanLine det parse) st0 pre"
    have "st = scanRemainder det parse (foldl (scanLine det parse) (scanLine det parse s1 l) post) rest"
      using a by (simp add: st' s1_def)
    then have "recordedClear st = recordedClear (scanLine det parse s1 l)"
      using a by (simp add: scanRemainder_clear foldl_scanLine_no_clear)
    also have "\<dots> = \<lparr> cr_lastClearIndex = int (length (lineEvents parse pre)),
          cr_lastClearOffset = calculatePruningPositionInFile det (start + streamSize pre [] + int (length l) + 1) l
             (pp_position (the (findLastPrunePoint det (eventData (the (lineEvent parse l)))))),
          cr_lastResizeBeforeClear = lastResizeIn (lineEvents parse pre) None \<rparr>"
      using a by (simp add: scanLine_clear s1_def foldl_scanLine_events foldl_scanLine_offset
          foldl_scanLine_resize init)
    finally have rec: "recordedClear st = \<lparr> cr_lastClearIndex = int (length (lineEvents parse pre)),
          cr_lastClearOffset = calculatePruningPositionInFile det (start + streamSize pre [] + int (length l) + 1) l
             (pp_position (the (findLastPrunePoint det (eventData (the (lineEvent parse l)))))),
          cr_lastResizeBeforeClear = lastResizeIn (lineEvents parse pre) None \<rparr>" .
    have sz: "start + streamSize pre l + 1 = start + streamSize pre [] + int (length l) + 1"
      by (simp add: streamSize_def)
    show "Some (recordedClear st) = clearAt det parse start pre l True"
      using a unfolding rec by (auto simp add: clearAt_def isClearMatch_def sz split: option.splits)
    show "sentHeaders r =
                  (case s_header st of
                     None \<Rightarrow> []
                   | Some h \<Rightarrow> [rewrittenHeader parseInt h (lastResizeIn (lineEvents parse pre) None)])"
      unfolding sent headerToSend_recorded rec by (simp split: option.splits)
  }
  {
    assume a: "isClearMatch det parse rest"
    define s1 where "s1 = foldl (scanLine det parse) st0 lines"
    have rec: "recordedClear st = \<lparr> cr_lastClearIndex = int (length (lineEvents parse lines)),
          cr_lastClearOffset = calculatePruningPositionInFile det (start + streamSize lines [] + int (length rest)) rest
             (pp_position (the (findLastPrunePoint det (eventData (the (lineEvent parse rest)))))),
          cr_lastResizeBeforeClear = lastResizeIn (lineEvents parse lines) None \<rparr>"
      using a by (simp add: st' scanRemainder_clear foldl_scanLine_events foldl_scanLine_offset
          foldl_scanLine_resize init)
    have sz: "start + streamSize lines rest = start + streamSize lines [] + int (length rest)"
      by (simp add: streamSize_def)
    show "Some (recordedClear st) = clearAt det parse start lines rest False"
      using a unfolding rec by (auto simp add: clearAt_def isClearMatch_def sz split: option.splits)
    show "sentHeaders r =
                  (case s_header st of
                     None \<Rightarrow> []
                   | Some h \<Rightarrow> [rewrittenHeader parseInt h (lastResizeIn (lineEvents parse lines) None)])"
      unfolding sent headerToSend_recorded rec by (simp split: option.splits)
  }
qed


lemma exampleParse_values:
  "exampleParse lineHeader = Some (ParsedHeader exampleHeader)"
  "exampleParse lineOutA = Some (ParsedEvent (Timed 1 ''o'' ''a''))"
  "exampleParse lineOutB = Some (ParsedEvent (Timed 2 ''o'' ''b''))"
  "exampleParse lineOutC = Some (ParsedEvent (Timed 3 ''o'' ''c''))"
  "exampleParse lineResize = Some (ParsedEvent (Timed 4 ''r'' ''100x30''))"
  "exampleParse lineResize2 = Some (ParsedEvent (Timed 5 ''r'' ''120x40''))"
  "exampleParse lineClear = Some (ParsedEvent (Timed 6 ''o'' dataClear))"
  "exampleParse lineClear2 = Some (ParsedEvent (Timed 7 ''o'' dataClear2))"
  "exampleParse [] = None"
  by (simp_all add: exampleParse_def exampleHeader_def lineHeader_def lineOutA_def lineOutB_def
      lineOutC_def lineResize_def lineResize2_def lineClear_def lineClear2_def lineInput_def lineExit_def)

lemma example_not_blank:
  "\<not> isBlank lineHeader" "\<not> isBlank lineOutA" "\<not> isBlank lineOutB" "\<not> isBlank lineOutC"
  "\<not> isBlank lineResize" "\<not> isBlank lineResize2" "\<not> isBlank lineClear" "\<not> isBlank lineClear2"
  "isBlank []"
  by (simp_all add: isBlank_def isWhiteSpace_def lineHeader_def lineOutA_def lineOutB_def
      lineOutC_def lineResize_def lineResize2_def lineClear_def lineClear2_def)

lemma example_lengths:
  "length lineHeader = 36" "length lineOutA = 11" "length lineOutB = 11" "length lineOutC = 11"
  "length lineResize = 16" "length lineResize2 = 16" "length lineClear = 19" "length lineClear2 = 21"
  by (simp_all add: lineHeader_def lineOutA_def lineOutB_def
      lineOutC_def lineResize_def lineResize2_def lineClear_def lineClear2_def)

lemma exampleDetector_values:
  "containsPruningSequence exampleDetector ''a'' = False"
  "containsPruningSequence exampleDetector ''b'' = False"
  "containsPruningSequence exampleDetector ''c'' = False"
  "containsPruningSequence exampleDetector dataClear = True"
  "containsPruningSequence exampleDetector dataClear2 = True"
  "findLastPrunePoint exampleDetector dataClear =
     Some \<lparr> pp_sequence = clearSequence, pp_position = 0 \<rparr>"
  "findLastPrunePoint exampleDetector dataClear2 =
     Some \<lparr> pp_sequence = clearSequence, pp_position = 1 \<rparr>"
  "calculatePruningPositionInFile exampleDetector fileOffset lineClear position = fileOffset - 20 + 8"
  "calculatePruningPositionInFile exampleDetector fileOffset lineClear2 position = fileOffset - 22 + 9"
  by (simp_all add: exampleDetector_def clearSequence_def escapedClearSequence_def dataClear_def
      dataClear2_def lineClear_def lineClear2_def)

lemma twoClears_start: "startOffsetOf None (Some 149) = 0"
  by (simp add: startOffsetOf_def)

lemma twoClears_scan:
  "analysed exampleDetector exampleParse None (Some 149) (Some exampleHeader)
     [lineHeader, lineOutA, lineResize, lineClear, lineResize2, lineOutB, lineClear2, lineOutC] [] =
   \<lparr> s_header = Some exampleHeader,
     s_events = [Timed 1 ''o'' ''a'', Timed 4 ''r'' ''100x30'', Timed 6 ''o'' dataClear,
                 Timed 5 ''r'' ''120x40'', Timed 2 ''o'' ''b'',
                 Timed 7 ''o'' dataClear2, Timed 3 ''o'' ''c''],
     s_eventOffsets = [37, 49, 66, 86, 103, 115, 137],
     s_lastClearIndex = 5,
     s_lastResizeBeforeClear = Some (Timed 5 ''r'' ''120x40''),
     s_currentResize = Some (Timed 5 ''r'' ''120x40''),
     s_fileOffset = 149, s_lastClearOffset = 124 \<rparr>"
  by (simp add: analysed_def analyseStream_def scanLine_def scanRemainder_def
      recordEvent_def pushEvent_def checkClear_def trackResize_def processClearSequence_def
      initialScanState_def twoClears_start exampleParse_values example_not_blank
      example_lengths exampleDetector_values Let_def)

theorem last_clear_wins_witness:
  "recordedClear (analysed exampleDetector exampleParse None (Some 149) (Some exampleHeader)
       [lineHeader, lineOutA, lineResize, lineClear, lineResize2, lineOutB, lineClear2, lineOutC] [])
     = \<lparr> cr_lastClearIndex = 5, cr_lastClearOffset = 124,
         cr_lastResizeBeforeClear = Some (Timed 5 ''r'' ''120x40'') \<rparr>
   \<and> sentHeaders (sendExistingContent exampleDetector exampleParse exampleParseInt None (Some 149)
       (Some exampleHeader) [lineHeader, lineOutA, lineResize, lineClear, lineResize2, lineOutB, lineClear2, lineOutC] [] None)
     = [\<lparr> h_version = 2, h_width = Finite 120, h_height = Finite 40 \<rparr>]"
proof -
  have hyp: "[lineHeader, lineOutA, lineResize, lineClear, lineResize2, lineOutB, lineClear2, lineOutC] =
      [lineHeader, lineOutA, lineResize, lineClear, lineResize2, lineOutB] @ lineClear2 # [lineOutC]
    \<and> isClearMatch exampleDetector exampleParse lineClear2
    \<and> (\<forall>l' \<in> set [lineOutC]. \<not> isClearMatch exampleDetector exampleParse l')
    \<and> \<not> isClearMatch exampleDetector exampleParse []"
    by (simp add: isClearMatch_def lineEvent_def exampleParse_values
        example_not_blank exampleDetector_values)
  have dims: "parseDimension exampleParseInt [''120'', ''40''] 0 = Finite 120"
    "parseDimension exampleParseInt [''120'', ''40''] 1 = Finite 40"
    by (simp_all add: parseDimension_def js_index_def exampleParseInt_def)
  have resize: "lastResizeIn (lineEvents exampleParse
      [lineHeader, lineOutA, lineResize, lineClear, lineResize2, lineOutB]) None
      = Some (Timed 5 ''r'' ''120x40'')"
    by (simp add: lastResizeIn_def lineEvents_def lineEvent_def List.map_filter_def
        exampleParse_values example_not_blank)
  note both = mp [OF conjunct1 [OF last_clear_wins [where det = exampleDetector and parse = exampleParse
      and parseInt = exampleParseInt and info = None and fsz = "Some 149" and header = "Some exampleHeader"
      and lines = "[lineHeader, lineOutA, lineResize, lineClear, lineResize2, lineOutB, lineClear2, lineOutC]" and rest = "[]"
      and pre = "[lineHeader, lineOutA, lineResize, lineClear, lineResize2, lineOutB]"
      and l = lineClear2 and post = "[lineOutC]" and requested = None, OF refl refl refl]] hyp]
  have "sentHeaders (sendExistingContent exampleDetector exampleParse exampleParseInt None (Some 149)
       (Some exampleHeader) [lineHeader, lineOutA, lineResize, lineClear, lineResize2, lineOutB, lineClear2, lineOutC] [] None)
     = [rewrittenHeader exampleParseInt exampleHeader (Some (Timed 5 ''r'' ''120x40''))]"
    using both [THEN conjunct2] unfolding twoClears_scan resize by simp
  then show ?thesis
    unfolding twoClears_scan
    by (simp add: recordedClear_def rewrittenHeader_def dims exampleHeader_def)
qed


subsection \<open>Claim C1: the tail bound\<close>

lemma totalOutputEventsFrom_step:
  assumes "0 \<le> i" "i < int (length events)"
  shows "totalOutputEventsFrom events i =
           (if isOutputAt events i then 1 else 0) + totalOutputEventsFrom events (i + 1)"
proof -
  have "drop (nat i) events = events ! nat i # drop (nat (i + 1)) events"
    using assms by (simp add: Cons_nth_drop_Suc nat_add_distrib)
  then show ?thesis
    using assms by (simp add: totalOutputEventsFrom_def eventsFrom_def isOutputAt_def js_index_def)
qed

lemma totalOutputEventsFrom_mono:
  assumes "0 \<le> i" "i \<le> j"
  shows "totalOutputEventsFrom events j \<le> totalOutputEventsFrom events i"
proof -
  have "drop (nat j) events = drop (nat j - nat i) (drop (nat i) events)"
    using assms by simp
  moreover have "length (filter P (drop k xs)) \<le> length (filter P xs)"
    for P k and xs :: "asciinema_event list"
    by (metis append_take_drop_id filter_append length_append le_add2)
  ultimately show ?thesis
    unfolding totalOutputEventsFrom_def eventsFrom_def by (metis of_nat_le_iff)
qed

text \<open>What the backward scan returns: when at least \<open>n\<close> output events follow the
  boundary, the index of the \<open>n\<close>-th output event counted from the end; otherwise the
  boundary itself.\<close>

definition tailScanPost :: "asciinema_event list \<Rightarrow> int \<Rightarrow> int \<Rightarrow> int \<Rightarrow> int \<Rightarrow> bool" where
  "tailScanPost events base n idx r =
     (if n \<le> totalOutputEventsFrom events base
      then base \<le> r \<and> r \<le> idx \<and> totalOutputEventsFrom events r = n \<and> isOutputAt events r
      else r = base)"

lemma tailScanPost_weaken:
  "tailScanPost events base n (idx - 1) r \<Longrightarrow> tailScanPost events base n idx r"
  by (simp add: tailScanPost_def split: if_splits)

lemma tailScan_spec:
  assumes "0 \<le> base" "base - 1 \<le> idx" "idx < int (length events)"
    and "c = totalOutputEventsFrom events (idx + 1)" "c < n" "idx \<ge> base \<or> s = base"
  shows "tailScanPost events base n idx (tailScan events base n idx c s)"
  using assms
proof (induction events base n idx c s rule: tailScan.induct)
  case (1 events base n idx c s)
  show ?case
  proof (cases "idx \<ge> base")
    case False
    then have eq: "idx + 1 = base" and "s = base" using "1.prems" by auto
    have "totalOutputEventsFrom events base < n"
      using "1.prems"(4,5) unfolding eq by simp
    moreover have "tailScan events base n idx c s = s"
      using False by (subst tailScan.simps) simp
    ultimately show ?thesis using \<open>s = base\<close> by (simp add: tailScanPost_def)
  next
    case True
    then have step: "totalOutputEventsFrom events idx = (if isOutputAt events idx then 1 else 0) + c"
      using "1.prems" totalOutputEventsFrom_step [of idx events] by simp
    have mono: "totalOutputEventsFrom events idx \<le> totalOutputEventsFrom events base"
      using True "1.prems"(1) by (rule totalOutputEventsFrom_mono [rotated])
    have pre: "base - 1 \<le> idx - 1" "idx - 1 < int (length events)" "base \<le> idx - 1 \<or> idx = base"
      using True "1.prems"(3) by auto
    show ?thesis
    proof (cases "isOutputAt events idx")
      case out: True
      show ?thesis
      proof (cases "c + 1 \<ge> n")
        case stop: True
        have "totalOutputEventsFrom events idx = n" using step out stop "1.prems"(5) by simp
        moreover have "tailScan events base n idx c s = idx"
          using True out stop by (subst tailScan.simps) simp
        ultimately show ?thesis
          using True out mono by (simp add: tailScanPost_def)
      next
        case go: False
        have "c + 1 = totalOutputEventsFrom events (idx - 1 + 1)" using step out by simp
        moreover have "c + 1 < n" using go by simp
        ultimately have "tailScanPost events base n (idx - 1)
            (tailScan events base n (idx - 1) (c + 1) idx)"
          using "1.IH"(1) [OF True out go "1.prems"(1) pre(1,2)] pre(3) by blast
        moreover have "tailScan events base n idx c s = tailScan events base n (idx - 1) (c + 1) idx"
          using True out go by (subst tailScan.simps) simp
        ultimately show ?thesis
          using tailScanPost_weaken by metis
      qed
    next
      case nout: False
      have "c = totalOutputEventsFrom events (idx - 1 + 1)" using step nout by simp
      then have "tailScanPost events base n (idx - 1) (tailScan events base n (idx - 1) c idx)"
        using "1.IH"(2) [OF True nout "1.prems"(1) pre(1,2)] "1.prems"(5) pre(3) by blast
      moreover have "tailScan events base n idx c s = tailScan events base n (idx - 1) c idx"
        using True nout by (subst tailScan.simps) simp
      ultimately show ?thesis
        using tailScanPost_weaken by metis
    qed
  qed
qed

lemma tailSendStartIndex_spec:
  assumes "0 \<le> base" "base < int (length events)" "0 < n"
  shows "tailScanPost events base n (int (length events) - 1) (tailSendStartIndex events base n)"
proof -
  have zero: "(0::int) = totalOutputEventsFrom events (int (length events) - 1 + 1)"
    by (simp add: totalOutputEventsFrom_def eventsFrom_def)
  have post: "tailScanPost events base n (int (length events) - 1)
      (tailScan events base n (int (length events) - 1) 0 (int (length events) - 1))"
    using assms by (intro tailScan_spec zero) auto
  then have "base \<le> tailScan events base n (int (length events) - 1) 0 (int (length events) - 1)"
    by (simp add: tailScanPost_def split: if_splits)
  then show ?thesis
    using post by (simp add: tailSendStartIndex_def max_def)
qed

lemma tailChunk_fields:
  "c_hasMore (fst (tailChunk st base so n)) = (tailSendStartIndex (s_events st) base n > base)"
  "c_chunkOutputEvents (fst (tailChunk st base so n)) =
     totalOutputEventsFrom (s_events st) (tailSendStartIndex (s_events st) base n)"
  "c_events (fst (tailChunk st base so n)) =
     keptEvents (eventsFrom (s_events st) (tailSendStartIndex (s_events st) base n))"
  "c_initialTailLines (fst (tailChunk st base so n)) = n"
  "c_totalOutputEvents (fst (tailChunk st base so n)) = totalOutputEventsFrom (s_events st) base"
  by (simp_all add: tailChunk_def Let_def classifyEvents_initial totalOutputEventsFrom_def)

lemma chunkOf_legacy: "List.map_filter chunkOf (legacyMessages evs) = []"
  by (simp add: legacyMessages_def List.map_filter_def filter_empty_conv)

lemma chunkOf_header:
  "List.map_filter chunkOf (case h of None \<Rightarrow> [] | Some x \<Rightarrow> [HeaderMessage x]) = []"
  by (cases h) (simp_all add: List.map_filter_def)

lemma chunkOf_exit:
  "List.map_filter chunkOf (case e of None \<Rightarrow> [] | Some x \<Rightarrow> [EventMessage x]) = []"
  by (cases e) (simp_all add: List.map_filter_def)

lemma replay_sentChunks:
  "sentChunks (replay parseInt st info so n) =
     (if 0 < n \<and> baseStartIndexOf st < int (length (s_events st))
      then [fst (tailChunk st (baseStartIndexOf st) so n)] else [])"
proof (cases "0 < n \<and> baseStartIndexOf st < int (length (s_events st))")
  case True
  obtain payload ex where tc: "tailChunk st (baseStartIndexOf st) so n = (payload, ex)"
    by (cases "tailChunk st (baseStartIndexOf st) so n")
  have "written (replay parseInt st info so n) =
      (case headerToSend parseInt st of None \<Rightarrow> [] | Some h \<Rightarrow> [HeaderMessage h]) @ [ChunkMessage payload]
        @ (case ex of None \<Rightarrow> [] | Some e \<Rightarrow> [EventMessage e])"
    unfolding replay_def Let_def if_P [OF True] by (simp add: tc)
  then show ?thesis
    using True by (simp add: sentChunks_def map_filter_app chunkOf_header chunkOf_exit tc
        List.map_filter_simps)
next
  case False
  have "written (replay parseInt st info so n) =
      (case headerToSend parseInt st of None \<Rightarrow> [] | Some h \<Rightarrow> [HeaderMessage h])
        @ legacyMessages (eventsFrom (s_events st) (baseStartIndexOf st))"
    unfolding replay_def Let_def if_not_P [OF False] by simp
  then show ?thesis
    using False by (simp add: sentChunks_def map_filter_app chunkOf_header chunkOf_legacy)
qed

lemma clampInitialTailLines_cases:
  "clampInitialTailLines requested =
     (case requested of Some (Finite x) \<Rightarrow> max 0 (min \<lfloor>x\<rfloor> 5000) | _ \<Rightarrow> 0)"
  by (simp add: clampInitialTailLines_def MAX_INITIAL_TAIL_LINES_def
      split: option.splits js_number.splits)

lemma isOutputEvent_normalizedEvent: "isOutputEvent (normalizedEvent e) = isOutputEvent e"
  by (cases e) simp_all

lemma outputs_keptEvents:
  "length (filter isOutputEvent (keptEvents evs)) = length (filter isOutputEvent evs)"
  by (induction evs) (simp_all add: keptEvents_def isOutputEvent_normalizedEvent)

text \<open>The chunk that the replay writes, in terms of the index \<open>base\<close> of the first event
  after the boundary.\<close>

lemma replay_tail_chunk:
  assumes n0: "0 < n"
    and True: "base < int (length (s_events st))"
    and base: "base = baseStartIndexOf st"
    and outs: "outs = totalOutputEventsFrom (s_events st) base"
    and evs: "evs = eventsFrom (s_events st) base"
  shows "\<exists>c. sentChunks (replay parseInt st info so n) = [c]
        \<and> c_initialTailLines c = n \<and> c_totalOutputEvents c = outs
        \<and> c_chunkOutputEvents c = int (length (filter isOutputEvent (c_events c)))
        \<and> (\<exists>k. c_events c = keptEvents (drop k evs) \<and> (c_hasMore c \<longleftrightarrow> 0 < k))
        \<and> (n < outs \<longrightarrow> c_chunkOutputEvents c = n \<and> c_hasMore c)
        \<and> (outs = n \<longrightarrow> c_chunkOutputEvents c = n
              \<and> (c_hasMore c \<longleftrightarrow> \<not> isOutputAt (s_events st) base))
        \<and> (outs < n \<longrightarrow> c_chunkOutputEvents c = outs \<and> \<not> c_hasMore c
              \<and> c_events c = keptEvents evs)"
proof -
  have b0: "0 \<le> base" by (simp add: base baseStartIndexOf_def)
  define c where "c = fst (tailChunk st base so n)"
  define k where "k = tailSendStartIndex (s_events st) base n"
  have sent: "sentChunks (replay parseInt st info so n) = [c]"
    using True n0 by (simp add: replay_sentChunks base c_def)
  have post: "tailScanPost (s_events st) base n (int (length (s_events st)) - 1) k"
    unfolding k_def using b0 True n0 by (rule tailSendStartIndex_spec)
  have more: "c_hasMore c = (k > base)"
    and cnt: "c_chunkOutputEvents c = totalOutputEventsFrom (s_events st) k"
    and cev: "c_events c = keptEvents (eventsFrom (s_events st) k)"
    and tl: "c_initialTailLines c = n"
    and tot: "c_totalOutputEvents c = outs"
    unfolding c_def k_def outs by (rule tailChunk_fields)+
  have bk: "base \<le> k"
    by (simp add: k_def tailSendStartIndex_def)
  have count: "c_chunkOutputEvents c = int (length (filter isOutputEvent (c_events c)))"
    by (simp add: cnt cev outputs_keptEvents totalOutputEventsFrom_def)
  have part: "eventsFrom (s_events st) k = drop (nat (k - base)) evs"
    using b0 bk by (simp add: evs eventsFrom_def nat_diff_distrib)
  have suffix: "\<exists>j. c_events c = keptEvents (drop j evs) \<and> (c_hasMore c \<longleftrightarrow> 0 < j)"
    unfolding more cev part by (rule exI [of _ "nat (k - base)"]) simp
  have big: "n < outs \<longrightarrow> c_chunkOutputEvents c = n \<and> c_hasMore c"
  proof
    assume "n < outs"
    then have "base \<le> k" "totalOutputEventsFrom (s_events st) k = n"
      using post by (simp_all add: tailScanPost_def outs)
    moreover from this \<open>n < outs\<close> have "k \<noteq> base" using outs by auto
    ultimately show "c_chunkOutputEvents c = n \<and> c_hasMore c"
      by (simp add: more cnt)
  qed
  have eq: "outs = n \<longrightarrow> c_chunkOutputEvents c = n
      \<and> (c_hasMore c \<longleftrightarrow> \<not> isOutputAt (s_events st) base)"
  proof
    assume "outs = n"
    then have k: "base \<le> k" "totalOutputEventsFrom (s_events st) k = n" "isOutputAt (s_events st) k"
      using post by (simp_all add: tailScanPost_def outs)
    have "\<not> isOutputAt (s_events st) base" if "base < k"
    proof
      assume "isOutputAt (s_events st) base"
      then have "outs = 1 + totalOutputEventsFrom (s_events st) (base + 1)"
        using totalOutputEventsFrom_step [OF b0 True] outs by simp
      moreover have "totalOutputEventsFrom (s_events st) k \<le> totalOutputEventsFrom (s_events st) (base + 1)"
        using that b0 by (intro totalOutputEventsFrom_mono) auto
      ultimately show False using k(2) \<open>outs = n\<close> by simp
    qed
    moreover have "base < k" if "\<not> isOutputAt (s_events st) base"
      using that k(1,3) by (cases "k = base") auto
    ultimately show "c_chunkOutputEvents c = n \<and> (c_hasMore c \<longleftrightarrow> \<not> isOutputAt (s_events st) base)"
      using k(2) by (auto simp: more cnt)
  qed
  have few: "outs < n \<longrightarrow> c_chunkOutputEvents c = outs \<and> \<not> c_hasMore c
      \<and> c_events c = keptEvents evs"
  proof
    assume "outs < n"
    then have "k = base"
      using post by (simp add: tailScanPost_def outs)
    then show "c_chunkOutputEvents c = outs \<and> \<not> c_hasMore c \<and> c_events c = keptEvents evs"
      by (simp add: more cnt cev outs evs)
  qed
  show ?thesis
    by (intro exI [of _ c] conjI sent tl tot count suffix big eq few)
qed

text \<open>
  The events after the last clear boundary, read off the recording itself: the events
  of the lines that follow the last line holding a clear sequence, and every event when
  no line holds one.  The text left at the end of the stream counts as the last line.
\<close>

definition linesAfterLastClear :: "pruning_detector \<Rightarrow> json_parser \<Rightarrow> string list \<Rightarrow> string list" where
  "linesAfterLastClear det parse ls = rev (takeWhile (\<lambda>l. \<not> isClearMatch det parse l) (rev ls))"

definition eventsAfterLastClear ::
  "pruning_detector \<Rightarrow> json_parser \<Rightarrow> string list \<Rightarrow> string \<Rightarrow> asciinema_event list" where
  "eventsAfterLastClear det parse lines rest =
     lineEvents parse (linesAfterLastClear det parse (lines @ [rest]))"

lemma linesAfterLastClear_snoc:
  "linesAfterLastClear det parse (ls @ [l]) =
     (if isClearMatch det parse l then [] else linesAfterLastClear det parse ls @ [l])"
  by (simp add: linesAfterLastClear_def)

lemma lineEvents_append: "lineEvents parse (xs @ ys) = lineEvents parse xs @ lineEvents parse ys"
  by (simp add: lineEvents_def map_filter_app)

lemma lineEvents_Nil: "lineEvents parse [] = []"
  by (simp add: lineEvents_def List.map_filter_simps)

lemma isClearMatch_lineEvents: "isClearMatch det parse l \<Longrightarrow> \<exists>e. lineEvents parse [l] = [e]"
  by (auto simp add: isClearMatch_def lineEvents_def List.map_filter_simps split: option.splits)

lemma scanLine_index:
  "s_lastClearIndex (scanLine det parse st l) =
     (if isClearMatch det parse l then int (length (s_events st)) else s_lastClearIndex st)"
  using arg_cong [OF scanLine_clear, of cr_lastClearIndex det parse st l]
  by (simp add: recordedClear_def)

lemma scanRemainder_index:
  "s_lastClearIndex (scanRemainder det parse st rest) =
     (if isClearMatch det parse rest then int (length (s_events st)) else s_lastClearIndex st)"
  using arg_cong [OF scanRemainder_clear, of cr_lastClearIndex det parse st rest]
  by (simp add: recordedClear_def)

lemma scanRemainder_events:
  "s_events (scanRemainder det parse st rest) = s_events st @ lineEvents parse [rest]"
  by (simp add: scanRemainder_def Let_def lineEvents_def lineEvent_def recordEvent_events
      List.map_filter_simps split: option.splits parsed_line.splits)

text \<open>What the scan has established once the lines \<open>ls\<close> are read: the events recorded
  are those of \<open>ls\<close>, and the events from the index after \<open>lastClearIndex\<close> on are those
  after the last clear of \<open>ls\<close>.\<close>

definition scanInv :: "pruning_detector \<Rightarrow> json_parser \<Rightarrow> scan_state \<Rightarrow> string list \<Rightarrow> bool" where
  "scanInv det parse st ls \<longleftrightarrow>
     s_events st = lineEvents parse ls
     \<and> s_lastClearIndex st < int (length (s_events st))
     \<and> eventsFrom (s_events st) (baseStartIndexOf st) =
         lineEvents parse (linesAfterLastClear det parse ls)"

lemma scanInv_step:
  assumes inv: "scanInv det parse st ls"
    and ev: "s_events st' = s_events st @ lineEvents parse [l]"
    and idx: "s_lastClearIndex st' =
        (if isClearMatch det parse l then int (length (s_events st)) else s_lastClearIndex st)"
  shows "scanInv det parse st' (ls @ [l])"
proof (cases "isClearMatch det parse l")
  case True
  then obtain e where e: "lineEvents parse [l] = [e]"
    using isClearMatch_lineEvents by blast
  show ?thesis
    using inv True
    by (simp add: scanInv_def ev idx e lineEvents_append linesAfterLastClear_snoc
        baseStartIndexOf_def eventsFrom_def lineEvents_Nil nat_add_distrib)
next
  case False
  have le: "nat (baseStartIndexOf st) \<le> length (s_events st)"
    using inv by (auto simp add: scanInv_def baseStartIndexOf_def)
  have same: "baseStartIndexOf st' = baseStartIndexOf st"
    using False by (simp add: baseStartIndexOf_def idx)
  have i1: "s_events st = lineEvents parse ls"
    and i2: "s_lastClearIndex st < int (length (s_events st))"
    and i3: "eventsFrom (s_events st) (baseStartIndexOf st) =
        lineEvents parse (linesAfterLastClear det parse ls)"
    using inv unfolding scanInv_def by blast+
  have "eventsFrom (s_events st') (baseStartIndexOf st') =
      eventsFrom (s_events st) (baseStartIndexOf st) @ lineEvents parse [l]"
    using le by (simp add: same ev eventsFrom_def)
  then have "eventsFrom (s_events st') (baseStartIndexOf st') =
      lineEvents parse (linesAfterLastClear det parse (ls @ [l]))"
    using False by (simp add: i3 lineEvents_append linesAfterLastClear_snoc)
  moreover have "s_lastClearIndex st' < int (length (s_events st'))"
    using i2 False by (simp add: ev idx)
  moreover have "s_events st' = lineEvents parse (ls @ [l])"
    by (simp add: ev i1 lineEvents_append)
  ultimately show ?thesis
    unfolding scanInv_def by blast
qed

lemma foldl_scanInv:
  "scanInv det parse st ls \<Longrightarrow> scanInv det parse (foldl (scanLine det parse) st lines) (ls @ lines)"
proof (induction lines arbitrary: st ls)
  case Nil
  then show ?case by simp
next
  case (Cons l lines)
  have "scanInv det parse (scanLine det parse st l) (ls @ [l])"
    using Cons.prems by (rule scanInv_step) (rule scanLine_events scanLine_index)+
  from Cons.IH [OF this] show ?case by simp
qed

lemma analysed_scanInv:
  "scanInv det parse (analysed det parse info fsz header lines rest) (lines @ [rest])"
proof -
  have "scanInv det parse (initialScanState header (startOffsetOf info fsz)) []"
    by (simp add: scanInv_def initialScanState_def lineEvents_Nil linesAfterLastClear_def
        eventsFrom_def)
  from foldl_scanInv [OF this, of lines]
  have "scanInv det parse
      (foldl (scanLine det parse) (initialScanState header (startOffsetOf info fsz)) lines) lines"
    by simp
  then show ?thesis
    unfolding analysed_def analyseStream_def
    by (rule scanInv_step) (rule scanRemainder_events scanRemainder_index)+
qed

lemma analysed_eventsAfterLastClear:
  "eventsFrom (s_events (analysed det parse info fsz header lines rest))
       (baseStartIndexOf (analysed det parse info fsz header lines rest)) =
     eventsAfterLastClear det parse lines rest"
  using analysed_scanInv [of det parse info fsz header lines rest]
  unfolding scanInv_def eventsAfterLastClear_def by blast

text \<open>
  Claim C1, as amended.  A client asks for \<open>initialTailLines = x\<close>; the tail size used is
  \<open>n = min \<lfloor>x\<rfloor> 5000\<close>, and 0 when nothing or no finite number was asked for.  Let
  \<open>after\<close> be the events after the last clear boundary of the recording and \<open>outs\<close> the
  number of output events among them.  When \<open>n \<le> 0\<close> (so for \<open>x < 1\<close>) or no event
  follows the boundary, no chunk is sent.  Otherwise exactly one chunk is sent; its events
  are the output and resize events of a final part of \<open>after\<close>, with \<open>hasMore\<close> true exactly
  when that part is not the whole of \<open>after\<close>, and \<open>chunkOutputEvents\<close> is the number of
  output events in the chunk.  If \<open>outs > n\<close> the chunk has \<open>chunkOutputEvents = n\<close> and
  \<open>hasMore = true\<close>; if \<open>outs = n\<close> it has \<open>chunkOutputEvents = n\<close>, and \<open>hasMore\<close> is true
  exactly when the first event after the boundary is not an output event; if \<open>outs < n\<close>
  every output and resize event after the boundary is in the chunk,
  \<open>chunkOutputEvents = outs\<close> and \<open>hasMore = false\<close>.
\<close>

theorem tail_bound:
  assumes n: "n = (case requested of Some (Finite x) \<Rightarrow> max 0 (min \<lfloor>x\<rfloor> 5000) | _ \<Rightarrow> 0)"
    and after: "after = eventsAfterLastClear det parse lines rest"
    and outs: "outs = int (length (filter isOutputEvent after))"
    and r: "r = sendExistingContent det parse parseInt info fsz header lines rest requested"
  shows "if 0 < n \<and> after \<noteq> [] then
      (\<exists>c. sentChunks r = [c] \<and> c_initialTailLines c = n \<and> c_totalOutputEvents c = outs
        \<and> c_chunkOutputEvents c = int (length (filter isOutputEvent (c_events c)))
        \<and> (\<exists>k. c_events c = keptEvents (drop k after) \<and> (c_hasMore c \<longleftrightarrow> 0 < k))
        \<and> (n < outs \<longrightarrow> c_chunkOutputEvents c = n \<and> c_hasMore c)
        \<and> (outs = n \<longrightarrow> c_chunkOutputEvents c = n
              \<and> (c_hasMore c \<longleftrightarrow> \<not> isOutputEvent (hd after)))
        \<and> (outs < n \<longrightarrow> c_chunkOutputEvents c = outs \<and> \<not> c_hasMore c
              \<and> c_events c = keptEvents after))
     else sentChunks r = []"
proof -
  define st where "st = analysed det parse info fsz header lines rest"
  define base where "base = baseStartIndexOf st"
  have r': "r = replay parseInt st info (startOffsetOf info fsz) n"
    unfolding r sendExistingContent_def Let_def st_def n clampInitialTailLines_cases ..
  have b0: "0 \<le> base"
    by (simp add: base_def baseStartIndexOf_def)
  have evs: "after = eventsFrom (s_events st) base"
    unfolding after st_def base_def by (rule analysed_eventsAfterLastClear [symmetric])
  have nonempty: "after \<noteq> [] \<longleftrightarrow> base < int (length (s_events st))"
    using b0 by (auto simp add: evs eventsFrom_def)
  show ?thesis
  proof (cases "0 < n \<and> after \<noteq> []")
    case False
    then have "\<not> (0 < n \<and> baseStartIndexOf st < int (length (s_events st)))"
      using nonempty by (simp add: base_def)
    then have "sentChunks r = []"
      by (simp add: r' replay_sentChunks)
    then show ?thesis
      using False by simp
  next
    case True
    then have n0: "0 < n" and lt: "base < int (length (s_events st))"
      using nonempty by simp_all
    have outs': "outs = totalOutputEventsFrom (s_events st) base"
      by (simp add: outs evs totalOutputEventsFrom_def)
    have "hd after = s_events st ! nat base"
      using lt b0 by (simp add: evs eventsFrom_def hd_drop_conv_nth)
    then have first: "isOutputAt (s_events st) base \<longleftrightarrow> isOutputEvent (hd after)"
      using lt b0 by (simp add: isOutputAt_def js_index_def)
    show ?thesis
      using replay_tail_chunk [OF n0 lt base_def outs' evs, of parseInt info "startOffsetOf info fsz"] True
      unfolding r' first by simp
  qed
qed

lemma exampleParse_blank: "isBlank []"
  by (simp add: isBlank_def)

lemma oneClear_matches:
  "\<not> isClearMatch exampleDetector exampleParse lineHeader"
  "\<not> isClearMatch exampleDetector exampleParse lineOutA"
  "\<not> isClearMatch exampleDetector exampleParse lineOutB"
  "\<not> isClearMatch exampleDetector exampleParse lineOutC"
  "isClearMatch exampleDetector exampleParse lineClear"
  "\<not> isClearMatch exampleDetector exampleParse []"
  by (simp_all add: isClearMatch_def lineEvent_def exampleParse_values example_not_blank
      exampleDetector_values)

lemma oneClear_lineEvents:
  "lineEvents exampleParse [lineOutB, []] = [Timed 2 ''o'' ''b'']"
  "lineEvents exampleParse [lineOutB, lineOutC, []] = [Timed 2 ''o'' ''b'', Timed 3 ''o'' ''c'']"
  by (simp_all add: lineEvents_def lineEvent_def List.map_filter_def exampleParse_values
      example_not_blank)

lemma oneClear_after:
  "eventsAfterLastClear exampleDetector exampleParse [lineHeader, lineOutA, lineClear, lineOutB] []
     = [Timed 2 ''o'' ''b'']"
  "eventsAfterLastClear exampleDetector exampleParse
       [lineHeader, lineOutA, lineClear, lineOutB, lineOutC] []
     = [Timed 2 ''o'' ''b'', Timed 3 ''o'' ''c'']"
  by (simp_all add: eventsAfterLastClear_def linesAfterLastClear_def oneClear_matches
      oneClear_lineEvents)

lemma oneClear_start: "startOffsetOf None (Some 81) = 0"
  by (simp add: startOffsetOf_def)

lemma oneClear_scan:
  "analysed exampleDetector exampleParse None (Some 81) (Some exampleHeader)
     [lineHeader, lineOutA, lineClear, lineOutB] [] =
   \<lparr> s_header = Some exampleHeader,
     s_events = [Timed 1 ''o'' ''a'', Timed 6 ''o'' dataClear, Timed 2 ''o'' ''b''],
     s_eventOffsets = [37, 49, 69],
     s_lastClearIndex = 1, s_lastResizeBeforeClear = None, s_currentResize = None,
     s_fileOffset = 81, s_lastClearOffset = 57 \<rparr>"
  by (simp add: analysed_def analyseStream_def scanLine_def scanRemainder_def
      recordEvent_def pushEvent_def checkClear_def trackResize_def processClearSequence_def
      initialScanState_def oneClear_start exampleParse_values example_not_blank
      example_lengths exampleDetector_values Let_def)

lemmas tail_eval = replay_sentChunks baseStartIndexOf_def tailChunk_fields tailSendStartIndex_def
  tailScan.simps isOutputAt_def eventsFrom_def totalOutputEventsFrom_def js_index_def

text \<open>
  As stated, C1 promises \<open>hasMore = true\<close> whenever at least \<open>N\<close> output events follow
  the boundary.  In a recording of the header, an output event, a clear and one more
  output event, joined with \<open>initialTailLines = 1\<close>, one output event follows the last
  clear, and the chunk carries it with \<open>hasMore = false\<close>: the backward scan stops on the
  first event after the boundary.
\<close>

theorem tail_bound_exact_count_counterexample:
  "int (length (filter isOutputEvent
      (eventsAfterLastClear exampleDetector exampleParse
         [lineHeader, lineOutA, lineClear, lineOutB] []))) \<ge> 1
   \<and> map c_chunkOutputEvents (sentChunks (sendExistingContent exampleDetector exampleParse
        exampleParseInt None (Some 81) (Some exampleHeader)
        [lineHeader, lineOutA, lineClear, lineOutB] [] (Some (Finite 1)))) = [1]
   \<and> map c_hasMore (sentChunks (sendExistingContent exampleDetector exampleParse
        exampleParseInt None (Some 81) (Some exampleHeader)
        [lineHeader, lineOutA, lineClear, lineOutB] [] (Some (Finite 1)))) = [False]"
proof -
  have tl: "clampInitialTailLines (Some (Finite 1)) = 1"
    by (simp add: clampInitialTailLines_def MAX_INITIAL_TAIL_LINES_def)
  show ?thesis
    unfolding sendExistingContent_def Let_def oneClear_scan oneClear_after tl
    by (simp add: tail_eval)
qed

theorem tail_bound_witness:
  "map c_chunkOutputEvents (sentChunks (sendExistingContent exampleDetector exampleParse
        exampleParseInt None (Some 93) (Some exampleHeader)
        [lineHeader, lineOutA, lineClear, lineOutB, lineOutC] [] (Some (Finite (3 / 2))))) = [1]
   \<and> map c_hasMore (sentChunks (sendExistingContent exampleDetector exampleParse
        exampleParseInt None (Some 93) (Some exampleHeader)
        [lineHeader, lineOutA, lineClear, lineOutB, lineOutC] [] (Some (Finite (3 / 2))))) = [True]
   \<and> map c_totalOutputEvents (sentChunks (sendExistingContent exampleDetector exampleParse
        exampleParseInt None (Some 93) (Some exampleHeader)
        [lineHeader, lineOutA, lineClear, lineOutB, lineOutC] [] (Some (Finite (3 / 2))))) = [2]"
proof -
  have fl: "\<lfloor>3 / 2 :: real\<rfloor> = 1"
    by simp
  from tail_bound [OF refl refl refl refl,
      where requested = "Some (Finite (3 / 2))" and det = exampleDetector and parse = exampleParse
        and parseInt = exampleParseInt and info = None and fsz = "Some 93"
        and header = "Some exampleHeader"
        and lines = "[lineHeader, lineOutA, lineClear, lineOutB, lineOutC]" and rest = "[]"]
  show ?thesis
    unfolding oneClear_after by (clarsimp simp add: fl)
qed



section \<open>Snapshot encoder\<close>

text \<open>
  A cell's \<open>char\<close> is kept as its UTF-8 bytes: \<open>charCodeAt(0) <= 127\<close> holds exactly
  when the first byte is below 128 (and fails on the empty string), and
  \<open>Buffer.byteLength(char, 'utf8')\<close> is the length.  Optional fields are options.
\<close>

record BufferCell =
  cell_char :: string
  cell_width :: int
  cell_fg :: "int option"
  cell_bg :: "int option"
  cell_attributes :: "int option"

record Snapshot =
  cols :: int
  rows :: int
  viewportY :: int
  cursorX :: int
  cursorY :: int
  cells :: "BufferCell list list"

definition MAGIC_HEADER :: int where
  "MAGIC_HEADER = 0x5654"

subsection \<open>Row fingerprints and the choice between a diff and a full frame\<close>

text \<open>Template literals print a number in decimal.\<close>

definition digitChar :: "nat \<Rightarrow> char" where
  "digitChar d = ''0123456789'' ! d"

fun showNat :: "nat \<Rightarrow> string" where
  "showNat n = (if n < 10 then [digitChar n] else showNat (n div 10) @ [digitChar (n mod 10)])"

declare showNat.simps [simp del]

definition showInt :: "int \<Rightarrow> string" where
  "showInt i = (if i < 0 then CHR ''-'' # showNat (nat (- i)) else showNat (nat i))"

definition showOptional :: "int option \<Rightarrow> string" where
  "showOptional v = (case v of None \<Rightarrow> [] | Some i \<Rightarrow> showInt i)"

definition cellKey :: "BufferCell \<Rightarrow> string" where
  "cellKey cell =
     cell_char cell @ '':'' @ showInt (cell_width cell) @ '':'' @ showOptional (cell_fg cell)
       @ '':'' @ showOptional (cell_bg cell) @ '':'' @ showOptional (cell_attributes cell)"

fun joinWith :: "string \<Rightarrow> string list \<Rightarrow> string" where
  "joinWith sep [] = []"
| "joinWith sep [x] = x"
| "joinWith sep (x # y # ys) = x @ sep @ joinWith sep (y # ys)"

definition hashRow :: "BufferCell list \<Rightarrow> string" where
  "hashRow row = (if length row = 0 then ''EMPTY'' else joinWith ''|'' (map cellKey row))"

text \<open>Lines 177-197.  The loop runs over the current rows; a row index beyond the
  previous snapshot's rows reads \<open>undefined\<close>, which differs from every fingerprint.\<close>

definition rowChanged :: "string list \<Rightarrow> string list \<Rightarrow> nat \<Rightarrow> bool" where
  "rowChanged prevRowHashes currentRowHashes i =
     (js_index prevRowHashes (int i) \<noteq> Some (currentRowHashes ! i))"

definition collectChangedRows :: "Snapshot \<Rightarrow> Snapshot \<Rightarrow> (nat \<times> BufferCell list) list" where
  "collectChangedRows snapshot previousSnapshot =
     (let prevRowHashes = map hashRow (cells previousSnapshot);
          currentRowHashes = map hashRow (cells snapshot)
      in map (\<lambda>i. (i, cells snapshot ! i))
           (filter (rowChanged prevRowHashes currentRowHashes) [0 ..< length currentRowHashes]))"

definition diffDecision :: "Snapshot \<Rightarrow> Snapshot option \<Rightarrow> bool \<times> (nat \<times> BufferCell list) list" where
  "diffDecision snapshot previousSnapshot =
     (case previousSnapshot of
        None \<Rightarrow> (False, [])
      | Some previous \<Rightarrow>
          if cols previous = cols snapshot \<and> rows previous = rows snapshot
             \<and> viewportY previous = viewportY snapshot
          then (let changedRows = collectChangedRows snapshot previous
                in if length changedRows > 0 \<and> length changedRows < length (cells snapshot)
                   then (True, changedRows) else (False, []))
          else (False, []))"

subsection \<open>Size computation\<close>

definition isSpace :: "BufferCell \<Rightarrow> bool" where
  "isSpace cell = (cell_char cell = '' '')"

text \<open>\<open>cell.attributes && cell.attributes !== 0\<close>\<close>

definition hasAttrs :: "BufferCell \<Rightarrow> bool" where
  "hasAttrs cell = (case cell_attributes cell of None \<Rightarrow> False | Some a \<Rightarrow> a \<noteq> 0)"

definition hasFg :: "BufferCell \<Rightarrow> bool" where
  "hasFg cell = (cell_fg cell \<noteq> None)"

definition hasBg :: "BufferCell \<Rightarrow> bool" where
  "hasBg cell = (cell_bg cell \<noteq> None)"

definition isAscii :: "BufferCell \<Rightarrow> bool" where
  "isAscii cell = (case cell_char cell of [] \<Rightarrow> False | c # cs \<Rightarrow> (of_char c :: nat) \<le> 127)"

definition colourSize :: "int option \<Rightarrow> int" where
  "colourSize colour = (case colour of None \<Rightarrow> 0 | Some v \<Rightarrow> if v > 255 then 3 else 1)"

definition calculateCellSize :: "BufferCell \<Rightarrow> int" where
  "calculateCellSize cell =
     (if isSpace cell \<and> \<not> hasAttrs cell \<and> \<not> hasFg cell \<and> \<not> hasBg cell then 1
      else 1
         + (if isAscii cell then 1 else 1 + int (length (cell_char cell)))
         + (if hasAttrs cell \<or> hasFg cell \<or> hasBg cell
            then 1 + colourSize (cell_fg cell) + colourSize (cell_bg cell) else 0))"

text \<open>\<open>!x\<close> on an optional number: \<open>undefined\<close> and 0 are falsy.\<close>

definition falsy :: "int option \<Rightarrow> bool" where
  "falsy v = (case v of None \<Rightarrow> True | Some i \<Rightarrow> i = 0)"

definition isBlankRow :: "BufferCell list \<Rightarrow> bool" where
  "isBlankRow rowCells =
     (length rowCells = 0
      \<or> (length rowCells = 1 \<and> cell_char (rowCells ! 0) = '' '' \<and> falsy (cell_fg (rowCells ! 0))
          \<and> falsy (cell_bg (rowCells ! 0)) \<and> falsy (cell_attributes (rowCells ! 0))))"

definition calculateRowSize :: "BufferCell list \<Rightarrow> int" where
  "calculateRowSize rowCells =
     (if isBlankRow rowCells then 2
      else foldl (\<lambda>size cell. size + calculateCellSize cell) 3 rowCells)"

subsection \<open>Writing into the buffer\<close>

text \<open>
  A \<open>Buffer\<close> is a byte array of fixed length; the writer state is the buffer and the
  running \<open>offset\<close>.  The \<open>write*\<close> methods throw a RangeError when the value does not
  fit the field or the field does not fit the buffer; \<open>copy\<close> never throws and copies
  what fits.  \<open>Buffer.allocUnsafe\<close> leaves the content unspecified; the model starts
  from zeros, and the returned prefix consists of written bytes only.
\<close>

type_synonym byte = "8 word"

datatype js_error = RangeError

type_synonym writer = "byte list \<times> nat"

type_synonym step = "writer \<Rightarrow> js_error + writer"

definition writeBytes :: "byte list \<Rightarrow> step" where
  "writeBytes bs w =
     (case w of (buffer, offset) \<Rightarrow>
        if offset + length bs \<le> length buffer
        then Inr (take offset buffer @ bs @ drop (offset + length bs) buffer, offset + length bs)
        else Inl RangeError)"

definition writeUInt8 :: "int \<Rightarrow> step" where
  "writeUInt8 v w = (if 0 \<le> v \<and> v \<le> 0xff then writeBytes [of_int v] w else Inl RangeError)"

definition writeUInt16LE :: "int \<Rightarrow> step" where
  "writeUInt16LE v w =
     (if 0 \<le> v \<and> v \<le> 0xffff
      then writeBytes [of_int (v mod 256), of_int (v div 256)] w else Inl RangeError)"

definition le32 :: "int \<Rightarrow> byte list" where
  "le32 v = [of_int (v mod 256), of_int (v div 256 mod 256), of_int (v div 65536 mod 256),
             of_int (v div 16777216 mod 256)]"

definition writeUInt32LE :: "int \<Rightarrow> step" where
  "writeUInt32LE v w =
     (if 0 \<le> v \<and> v \<le> 0xffffffff then writeBytes (le32 v) w else Inl RangeError)"

definition writeInt32LE :: "int \<Rightarrow> step" where
  "writeInt32LE v w =
     (if - 0x80000000 \<le> v \<and> v \<le> 0x7fffffff
      then writeBytes (le32 (v mod 0x100000000)) w else Inl RangeError)"

definition copyBytes :: "byte list \<Rightarrow> step" where
  "copyBytes bs w =
     (case w of (buffer, offset) \<Rightarrow>
        Inr (take offset buffer @ take (length buffer - offset) bs
               @ drop (offset + length bs) buffer,
             offset + length bs))"

text \<open>Statements in sequence; an exception ends the sequence.\<close>

fun runAll :: "step list \<Rightarrow> step" where
  "runAll [] w = Inr w"
| "runAll (s # ss) w = (case s w of Inl e \<Rightarrow> Inl e | Inr w' \<Rightarrow> runAll ss w')"

definition utf8Bytes :: "string \<Rightarrow> byte list" where
  "utf8Bytes text = map of_char text"

text \<open>Lines 143-161, the same for \<open>fg\<close> and \<open>bg\<close>.\<close>

definition encodeColour :: "int option \<Rightarrow> step list" where
  "encodeColour colour =
     (case colour of
        None \<Rightarrow> []
      | Some v \<Rightarrow> if v > 255 then [writeUInt8 0xff, writeUInt16LE v] else [writeUInt8 v])"

text \<open>Lines 110-162, the body of the loop over the cells.\<close>

definition encodeCell :: "BufferCell \<Rightarrow> step" where
  "encodeCell cell =
     (if isSpace cell \<and> \<not> hasAttrs cell \<and> \<not> hasFg cell \<and> \<not> hasBg cell
      then writeUInt8 0x00
      else runAll
        ([writeUInt8 0x01]
         @ (if isAscii cell then [writeUInt8 (int (of_char (hd (cell_char cell))))]
            else [writeUInt8 (int (length (utf8Bytes (cell_char cell)))),
                  copyBytes (utf8Bytes (cell_char cell))])
         @ (if hasAttrs cell \<or> hasFg cell \<or> hasBg cell
            then [writeUInt8 ((if hasAttrs cell then 1 else 0) + (if hasFg cell then 2 else 0)
                              + (if hasBg cell then 4 else 0))]
                 @ (if hasAttrs cell
                    then (case cell_attributes cell of None \<Rightarrow> [] | Some a \<Rightarrow> [writeUInt8 a])
                    else [])
                 @ encodeColour (cell_fg cell) @ encodeColour (cell_bg cell)
            else [])))"

definition encodeRow :: "BufferCell list \<Rightarrow> step" where
  "encodeRow rowCells =
     (if isBlankRow rowCells then runAll [writeUInt8 0x00, writeUInt8 0x00]
      else runAll ([writeUInt8 0x01, writeUInt16LE (int (length rowCells))]
                   @ map encodeCell rowCells))"

text \<open>Lines 212-227 and 245-260: the header, written the same way in both branches.\<close>

definition writeHeader :: "Snapshot \<Rightarrow> int \<Rightarrow> step list" where
  "writeHeader snapshot flags =
     [writeUInt16LE MAGIC_HEADER, writeUInt8 0x01, writeUInt8 flags,
      writeUInt32LE (cols snapshot), writeUInt32LE (rows snapshot),
      writeInt32LE (viewportY snapshot), writeInt32LE (cursorX snapshot),
      writeInt32LE (cursorY snapshot), writeUInt32LE 0]"

definition allocUnsafe :: "int \<Rightarrow> byte list" where
  "allocUnsafe dataSize = replicate (nat dataSize) 0"

definition diffDataSize :: "(nat \<times> BufferCell list) list \<Rightarrow> int" where
  "diffDataSize changedRows =
     foldl (\<lambda>dataSize (index, row). dataSize + 2 + calculateRowSize row) (32 + 2) changedRows"

definition fullDataSize :: "BufferCell list list \<Rightarrow> int" where
  "fullDataSize rowsOfCells =
     foldl (\<lambda>dataSize rowCells. dataSize + calculateRowSize rowCells) 32 rowsOfCells"

definition finish :: "bool \<Rightarrow> js_error + writer \<Rightarrow> js_error + (byte list \<times> bool)" where
  "finish useDiff result =
     (case result of
        Inl e \<Rightarrow> Inl e
      | Inr (buffer, offset) \<Rightarrow> Inr (take offset buffer, useDiff))"

definition encodeSnapshot :: "Snapshot \<Rightarrow> Snapshot option \<Rightarrow> js_error + (byte list \<times> bool)" where
  "encodeSnapshot snapshot previousSnapshot =
     (case diffDecision snapshot previousSnapshot of
        (useDiff, changedRows) \<Rightarrow>
          (let flags = (if useDiff then 0x01 else 0x00)
           in if useDiff \<and> length changedRows > 0 then
                finish useDiff
                  (runAll (writeHeader snapshot flags
                           @ [writeUInt16LE (int (length changedRows))]
                           @ concat (map (\<lambda>(index, row). [writeUInt16LE (int index), encodeRow row])
                                       changedRows))
                     (allocUnsafe (diffDataSize changedRows), 0))
              else
                finish useDiff
                  (runAll (writeHeader snapshot flags @ map encodeRow (cells snapshot))
                     (allocUnsafe (fullDataSize (cells snapshot)), 0))))"


subsection \<open>What a sequence of writes leaves in the buffer\<close>

text \<open>A step emits the bytes \<open>bs\<close> when, on every buffer with room for them, it writes
  exactly \<open>bs\<close> at the offset and advances the offset past them.\<close>

definition emits :: "step \<Rightarrow> byte list \<Rightarrow> bool" where
  "emits s bs =
     (\<forall>buffer offset. offset + length bs \<le> length buffer \<longrightarrow>
        s (buffer, offset) = writeBytes bs (buffer, offset))"

lemma emitsI:
  "(\<And>buffer offset. offset + length bs \<le> length buffer \<Longrightarrow>
      s (buffer, offset) = writeBytes bs (buffer, offset)) \<Longrightarrow> emits s bs"
  by (simp add: emits_def)

lemma emitsD:
  "emits s bs \<Longrightarrow> offset + length bs \<le> length buffer \<Longrightarrow>
     s (buffer, offset) = writeBytes bs (buffer, offset)"
  by (simp add: emits_def)

lemma writeBytes_fits:
  "offset + length bs \<le> length buffer \<Longrightarrow>
     writeBytes bs (buffer, offset) =
       Inr (take offset buffer @ bs @ drop (offset + length bs) buffer, offset + length bs)"
  by (simp add: writeBytes_def)

lemma writeBytes_append:
  assumes "offset + length bs + length cs \<le> length buffer"
  shows "writeBytes cs (take offset buffer @ bs @ drop (offset + length bs) buffer, offset + length bs)
         = writeBytes (bs @ cs) (buffer, offset)"
proof -
  have len: "length (take offset buffer @ bs @ drop (offset + length bs) buffer) = length buffer"
    using assms by simp
  have "take (offset + length bs) (take offset buffer @ bs @ drop (offset + length bs) buffer)
        = take offset buffer @ bs"
    using assms by simp
  moreover have "drop (offset + length bs + length cs)
        (take offset buffer @ bs @ drop (offset + length bs) buffer)
        = drop (offset + length bs + length cs) buffer"
    using assms by (simp add: add.commute add.left_commute)
  ultimately show ?thesis
    using assms len by (simp add: writeBytes_def add.assoc)
qed

lemma emits_writeBytes: "emits (writeBytes bs) bs"
  by (simp add: emits_def)

lemma emits_writeUInt8: "0 \<le> v \<Longrightarrow> v \<le> 255 \<Longrightarrow> emits (writeUInt8 v) [of_int v]"
  by (simp add: emits_def writeUInt8_def)

lemma emits_writeUInt16LE:
  "0 \<le> v \<Longrightarrow> v \<le> 65535 \<Longrightarrow> emits (writeUInt16LE v) [of_int (v mod 256), of_int (v div 256)]"
  by (simp add: emits_def writeUInt16LE_def)

lemma emits_writeUInt32LE:
  "0 \<le> v \<Longrightarrow> v \<le> 0xffffffff \<Longrightarrow> emits (writeUInt32LE v) (le32 v)"
  by (simp add: emits_def writeUInt32LE_def)

lemma emits_writeInt32LE:
  "- 0x80000000 \<le> v \<Longrightarrow> v \<le> 0x7fffffff \<Longrightarrow> emits (writeInt32LE v) (le32 (v mod 0x100000000))"
  by (simp add: emits_def writeInt32LE_def)

lemma emits_copyBytes: "emits (copyBytes bs) bs"
  by (simp add: emits_def copyBytes_def writeBytes_def)

definition seqStep :: "step \<Rightarrow> step \<Rightarrow> step" where
  "seqStep s t w = (case s w of Inl e \<Rightarrow> Inl e | Inr w' \<Rightarrow> t w')"

lemma emits_seqStep:
  assumes "emits s bs" "emits t cs"
  shows "emits (seqStep s t) (bs @ cs)"
proof (rule emitsI)
  fix buffer :: "byte list" and offset :: nat
  assume fit: "offset + length (bs @ cs) \<le> length buffer"
  then have fit1: "offset + length bs \<le> length buffer"
    and fit2: "offset + length bs + length cs \<le> length buffer"
    by simp_all
  define buffer' where "buffer' = take offset buffer @ bs @ drop (offset + length bs) buffer"
  have first: "s (buffer, offset) = Inr (buffer', offset + length bs)"
    using emitsD [OF assms(1) fit1] fit1 by (simp add: writeBytes_fits buffer'_def)
  have "length buffer' = length buffer"
    using fit1 by (simp add: buffer'_def)
  then have "t (buffer', offset + length bs) = writeBytes cs (buffer', offset + length bs)"
    using emitsD [OF assms(2), of "offset + length bs" buffer'] fit2 by simp
  also have "\<dots> = writeBytes (bs @ cs) (buffer, offset)"
    unfolding buffer'_def using fit2 by (rule writeBytes_append)
  finally show "seqStep s t (buffer, offset) = writeBytes (bs @ cs) (buffer, offset)"
    by (simp add: seqStep_def first)
qed

lemma runAll_Cons: "runAll (s # ss) = seqStep s (runAll ss)"
  by (rule ext) (simp add: seqStep_def)

lemma runAll_append: "runAll (xs @ ys) = seqStep (runAll xs) (runAll ys)"
proof (rule ext)
  fix w
  show "runAll (xs @ ys) w = seqStep (runAll xs) (runAll ys) w"
    by (induction xs arbitrary: w) (simp_all add: seqStep_def split: sum.splits)
qed

lemma emits_runAll_Nil: "emits (runAll []) []"
  by (simp add: emits_def writeBytes_def)

lemma emits_runAll_Cons: "emits s bs \<Longrightarrow> emits (runAll ss) cs \<Longrightarrow> emits (runAll (s # ss)) (bs @ cs)"
  unfolding runAll_Cons by (rule emits_seqStep)

lemma emits_runAll_append:
  "emits (runAll xs) bs \<Longrightarrow> emits (runAll ys) cs \<Longrightarrow> emits (runAll (xs @ ys)) (bs @ cs)"
  unfolding runAll_append by (rule emits_seqStep)

lemma emits_runAll_map:
  "(\<And>x. x \<in> set xs \<Longrightarrow> emits (f x) (g x)) \<Longrightarrow> emits (runAll (map f xs)) (concat (map g xs))"
proof (induction xs)
  case Nil
  show ?case by (simp add: emits_def writeBytes_def)
next
  case (Cons x xs)
  have h1: "emits (f x) (g x)" by (rule Cons.prems) simp
  have h2: "emits (runAll (map f xs)) (concat (map g xs))"
    by (rule Cons.IH) (simp add: Cons.prems)
  show ?case
    unfolding list.map concat.simps using h1 h2 by (rule emits_runAll_Cons)
qed

lemma emits_runAll_concat:
  "(\<And>x. x \<in> set xs \<Longrightarrow> emits (runAll (f x)) (g x)) \<Longrightarrow>
     emits (runAll (concat (map f xs))) (concat (map g xs))"
proof (induction xs)
  case Nil
  show ?case by (simp add: emits_def writeBytes_def)
next
  case (Cons x xs)
  have h1: "emits (runAll (f x)) (g x)" by (rule Cons.prems) simp
  have h2: "emits (runAll (concat (map f xs))) (concat (map g xs))"
    by (rule Cons.IH) (simp add: Cons.prems)
  show ?case
    unfolding list.map concat.simps using h1 h2 by (rule emits_runAll_append)
qed

subsection \<open>The bytes of a cell, a row and a frame\<close>

definition u16 :: "int \<Rightarrow> byte list" where
  "u16 v = [of_int (v mod 256), of_int (v div 256)]"

definition colourBytes :: "int option \<Rightarrow> byte list" where
  "colourBytes colour =
     (case colour of
        None \<Rightarrow> []
      | Some v \<Rightarrow> if v > 255 then 0xff # u16 v else [of_int v])"

definition styleFlags :: "BufferCell \<Rightarrow> int" where
  "styleFlags cell =
     (if hasAttrs cell then 1 else 0) + (if hasFg cell then 2 else 0) + (if hasBg cell then 4 else 0)"

definition cellBytes :: "BufferCell \<Rightarrow> byte list" where
  "cellBytes cell =
     (if isSpace cell \<and> \<not> hasAttrs cell \<and> \<not> hasFg cell \<and> \<not> hasBg cell then [0x00]
      else [0x01]
         @ (if isAscii cell then [of_char (hd (cell_char cell))]
            else of_nat (length (cell_char cell)) # utf8Bytes (cell_char cell))
         @ (if hasAttrs cell \<or> hasFg cell \<or> hasBg cell
            then of_int (styleFlags cell)
                 # (if hasAttrs cell then [of_int (the (cell_attributes cell))] else [])
                 @ colourBytes (cell_fg cell) @ colourBytes (cell_bg cell)
            else []))"

definition rowBytes :: "BufferCell list \<Rightarrow> byte list" where
  "rowBytes rowCells =
     (if isBlankRow rowCells then [0x00, 0x00]
      else 0x01 # u16 (int (length rowCells)) @ concat (map cellBytes rowCells))"

definition headerBytes :: "Snapshot \<Rightarrow> int \<Rightarrow> byte list" where
  "headerBytes snapshot flags =
     u16 MAGIC_HEADER @ [0x01, of_int flags] @ le32 (cols snapshot) @ le32 (rows snapshot)
       @ le32 (viewportY snapshot mod 0x100000000) @ le32 (cursorX snapshot mod 0x100000000)
       @ le32 (cursorY snapshot mod 0x100000000) @ le32 0"

definition colourValid :: "int option \<Rightarrow> bool" where
  "colourValid colour = (case colour of None \<Rightarrow> True | Some v \<Rightarrow> 0 \<le> v \<and> v \<le> 0xffff)"

definition cellValid :: "BufferCell \<Rightarrow> bool" where
  "cellValid cell =
     ((isAscii cell \<or> length (cell_char cell) \<le> 255)
      \<and> (case cell_attributes cell of None \<Rightarrow> True | Some a \<Rightarrow> 0 \<le> a \<and> a \<le> 0xff)
      \<and> colourValid (cell_fg cell) \<and> colourValid (cell_bg cell))"

definition rowValid :: "BufferCell list \<Rightarrow> bool" where
  "rowValid rowCells = (length rowCells \<le> 0xffff \<and> list_all cellValid rowCells)"

definition headerValid :: "Snapshot \<Rightarrow> bool" where
  "headerValid snapshot =
     (0 \<le> cols snapshot \<and> cols snapshot \<le> 0xffffffff
      \<and> 0 \<le> rows snapshot \<and> rows snapshot \<le> 0xffffffff
      \<and> - 0x80000000 \<le> viewportY snapshot \<and> viewportY snapshot \<le> 0x7fffffff
      \<and> - 0x80000000 \<le> cursorX snapshot \<and> cursorX snapshot \<le> 0x7fffffff
      \<and> - 0x80000000 \<le> cursorY snapshot \<and> cursorY snapshot \<le> 0x7fffffff)"

lemma emits_encodeColour: "colourValid c \<Longrightarrow> emits (runAll (encodeColour c)) (colourBytes c)"
proof (cases c)
  case None
  then show ?thesis by (simp add: encodeColour_def colourBytes_def emits_def writeBytes_def)
next
  case (Some v)
  assume "colourValid c"
  then have v: "0 \<le> v" "v \<le> 65535" using Some by (simp_all add: colourValid_def)
  show ?thesis
  proof (cases "v > 255")
    case True
    have "emits (runAll [writeUInt8 0xff, writeUInt16LE v]) ([of_int 0xff] @ (u16 v @ []))"
      unfolding u16_def
      by (intro emits_runAll_Cons emits_runAll_Nil emits_writeUInt8 emits_writeUInt16LE v) simp_all
    then show ?thesis using True Some by (simp add: encodeColour_def colourBytes_def)
  next
    case False
    have "emits (runAll [writeUInt8 v]) ([of_int v] @ [])"
      using False v by (intro emits_runAll_Cons emits_runAll_Nil emits_writeUInt8) simp_all
    then show ?thesis using False Some by (simp add: encodeColour_def colourBytes_def)
  qed
qed


lemma emits_single: "emits s bs \<Longrightarrow> emits (runAll [s]) bs"
  using emits_runAll_Cons [OF _ emits_runAll_Nil, of s bs] by simp

lemma emits_charSteps:
  assumes "isAscii cell \<or> length (cell_char cell) \<le> 255"
  shows "emits (runAll (if isAscii cell then [writeUInt8 (int (of_char (hd (cell_char cell))))]
            else [writeUInt8 (int (length (utf8Bytes (cell_char cell)))),
                  copyBytes (utf8Bytes (cell_char cell))]))
          (if isAscii cell then [of_char (hd (cell_char cell))]
            else of_nat (length (cell_char cell)) # utf8Bytes (cell_char cell))"
proof (cases "isAscii cell")
  case True
  then obtain c cs where c: "cell_char cell = c # cs" "(of_char c :: nat) \<le> 127"
    by (auto simp: isAscii_def split: list.splits)
  have "(of_int (int (of_char c)) :: byte) = of_nat (of_char c)"
    by (simp only: of_int_of_nat_eq)
  also have "\<dots> = of_char c"
    by (rule of_nat_of_char)
  finally have eq: "(of_int (int (of_char c)) :: byte) = of_char c" .
  have "emits (writeUInt8 (int (of_char c))) [of_int (int (of_char c))]"
    using c(2) by (intro emits_writeUInt8) simp_all
  then have "emits (runAll [writeUInt8 (int (of_char c))]) [of_char c]"
    unfolding eq by (rule emits_single)
  then show ?thesis using True c by simp
next
  case False
  then have len: "length (cell_char cell) \<le> 255" using assms by simp
  have "emits (writeUInt8 (int (length (utf8Bytes (cell_char cell)))))
      [of_int (int (length (utf8Bytes (cell_char cell))))]"
    using len by (intro emits_writeUInt8) (simp_all add: utf8Bytes_def)
  then have "emits (runAll [writeUInt8 (int (length (utf8Bytes (cell_char cell)))),
                  copyBytes (utf8Bytes (cell_char cell))])
      ([of_int (int (length (utf8Bytes (cell_char cell))))] @ utf8Bytes (cell_char cell))"
    by (intro emits_runAll_Cons emits_single emits_copyBytes)
  then show ?thesis using False by (simp add: utf8Bytes_def)
qed

lemma styleFlags_range: "0 \<le> styleFlags cell" "styleFlags cell \<le> 255"
  by (simp_all add: styleFlags_def)

lemma emits_attrSteps:
  assumes "case cell_attributes cell of None \<Rightarrow> True | Some a \<Rightarrow> 0 \<le> a \<and> a \<le> 0xff"
  shows "emits (runAll (if hasAttrs cell
                    then (case cell_attributes cell of None \<Rightarrow> [] | Some a \<Rightarrow> [writeUInt8 a])
                    else []))
          (if hasAttrs cell then [of_int (the (cell_attributes cell))] else [])"
proof (cases "cell_attributes cell")
  case None
  then show ?thesis by (simp add: hasAttrs_def emits_def writeBytes_def)
next
  case (Some a)
  then have "emits (runAll [writeUInt8 a]) [of_int a]"
    using assms by (intro emits_single emits_writeUInt8) simp_all
  then show ?thesis using Some by (simp add: hasAttrs_def emits_def writeBytes_def)
qed

lemma emits_styleSteps:
  assumes "cellValid cell"
  shows "emits (runAll (if hasAttrs cell \<or> hasFg cell \<or> hasBg cell
            then [writeUInt8 ((if hasAttrs cell then 1 else 0) + (if hasFg cell then 2 else 0)
                              + (if hasBg cell then 4 else 0))]
                 @ (if hasAttrs cell
                    then (case cell_attributes cell of None \<Rightarrow> [] | Some a \<Rightarrow> [writeUInt8 a])
                    else [])
                 @ encodeColour (cell_fg cell) @ encodeColour (cell_bg cell)
            else []))
          (if hasAttrs cell \<or> hasFg cell \<or> hasBg cell
            then of_int (styleFlags cell)
                 # (if hasAttrs cell then [of_int (the (cell_attributes cell))] else [])
                 @ colourBytes (cell_fg cell) @ colourBytes (cell_bg cell)
            else [])"
proof (cases "hasAttrs cell \<or> hasFg cell \<or> hasBg cell")
  case False
  then show ?thesis by (simp add: emits_def writeBytes_def)
next
  case True
  have valid: "case cell_attributes cell of None \<Rightarrow> True | Some a \<Rightarrow> 0 \<le> a \<and> a \<le> 0xff"
    "colourValid (cell_fg cell)" "colourValid (cell_bg cell)"
    using assms by (simp_all add: cellValid_def)
  have "emits (runAll ([writeUInt8 (styleFlags cell)]
                 @ (if hasAttrs cell
                    then (case cell_attributes cell of None \<Rightarrow> [] | Some a \<Rightarrow> [writeUInt8 a])
                    else [])
                 @ encodeColour (cell_fg cell) @ encodeColour (cell_bg cell)))
          ([of_int (styleFlags cell)]
                 @ (if hasAttrs cell then [of_int (the (cell_attributes cell))] else [])
                 @ colourBytes (cell_fg cell) @ colourBytes (cell_bg cell))"
    by (intro emits_runAll_append emits_single emits_writeUInt8 styleFlags_range
        emits_attrSteps emits_encodeColour valid)
  then show ?thesis
    unfolding styleFlags_def if_P [OF True] by simp
qed

lemma emits_encodeCell:
  assumes "cellValid cell"
  shows "emits (encodeCell cell) (cellBytes cell)"
proof (cases "isSpace cell \<and> \<not> hasAttrs cell \<and> \<not> hasFg cell \<and> \<not> hasBg cell")
  case True
  have "emits (writeUInt8 0) [of_int 0]"
    by (intro emits_writeUInt8) simp_all
  then show ?thesis
    unfolding encodeCell_def cellBytes_def if_P [OF True] by simp
next
  case False
  have chars: "isAscii cell \<or> length (cell_char cell) \<le> 255"
    using assms by (simp add: cellValid_def)
  have one: "emits (writeUInt8 1) [of_int 1]"
    by (intro emits_writeUInt8) simp_all
  show ?thesis
    unfolding encodeCell_def cellBytes_def if_not_P [OF False]
    using emits_runAll_append [OF emits_single [OF one]
        emits_runAll_append [OF emits_charSteps [OF chars] emits_styleSteps [OF assms]]]
    by simp
qed

lemma emits_encodeRow:
  assumes "rowValid rowCells"
  shows "emits (encodeRow rowCells) (rowBytes rowCells)"
proof (cases "isBlankRow rowCells")
  case True
  have zero: "emits (writeUInt8 0) [of_int 0]"
    by (intro emits_writeUInt8) simp_all
  have "emits (runAll [writeUInt8 0, writeUInt8 0]) ([of_int 0] @ [of_int 0])"
    by (intro emits_runAll_Cons emits_single zero)
  then show ?thesis
    unfolding encodeRow_def rowBytes_def if_P [OF True] by simp
next
  case False
  have len: "0 \<le> int (length rowCells)" "int (length rowCells) \<le> 65535"
    using assms by (simp_all add: rowValid_def)
  have one: "emits (writeUInt8 1) [of_int 1]"
    by (intro emits_writeUInt8) simp_all
  have cells: "emits (runAll (map encodeCell rowCells)) (concat (map cellBytes rowCells))"
    using assms by (intro emits_runAll_map emits_encodeCell) (simp add: rowValid_def list_all_iff)
  have "emits (runAll ([writeUInt8 1, writeUInt16LE (int (length rowCells))] @ map encodeCell rowCells))
      (([of_int 1] @ (u16 (int (length rowCells)) @ [])) @ concat (map cellBytes rowCells))"
    unfolding u16_def
    by (intro emits_runAll_append emits_runAll_Cons emits_runAll_Nil one emits_writeUInt16LE len cells)
  then show ?thesis
    unfolding encodeRow_def rowBytes_def if_not_P [OF False] by simp
qed


lemma length_le32 [simp]: "length (le32 v) = 4"
  by (simp add: le32_def)

lemma length_u16 [simp]: "length (u16 v) = 2"
  by (simp add: u16_def)

lemma length_headerBytes: "length (headerBytes snapshot flags) = 28"
  by (simp add: headerBytes_def)

lemma emits_writeHeader:
  assumes "headerValid snapshot" "flags = 0 \<or> flags = 1"
  shows "emits (runAll (writeHeader snapshot flags)) (headerBytes snapshot flags)"
proof -
  have magic: "0 \<le> MAGIC_HEADER" "MAGIC_HEADER \<le> 65535"
    by (simp_all add: MAGIC_HEADER_def)
  have one: "emits (writeUInt8 1) [of_int 1]"
    by (intro emits_writeUInt8) simp_all
  have fl: "emits (writeUInt8 flags) [of_int flags]"
    using assms(2) by (intro emits_writeUInt8) auto
  have zero: "emits (writeUInt32LE 0) (le32 0)"
    by (intro emits_writeUInt32LE) simp_all
  have v: "0 \<le> cols snapshot" "cols snapshot \<le> 0xffffffff"
      "0 \<le> rows snapshot" "rows snapshot \<le> 0xffffffff"
      "- 0x80000000 \<le> viewportY snapshot" "viewportY snapshot \<le> 0x7fffffff"
      "- 0x80000000 \<le> cursorX snapshot" "cursorX snapshot \<le> 0x7fffffff"
      "- 0x80000000 \<le> cursorY snapshot" "cursorY snapshot \<le> 0x7fffffff"
    using assms(1) by (simp_all add: headerValid_def)
  have "emits (runAll (writeHeader snapshot flags))
     (u16 MAGIC_HEADER @ [of_int 1] @ [of_int flags] @ le32 (cols snapshot) @ le32 (rows snapshot)
       @ le32 (viewportY snapshot mod 0x100000000) @ le32 (cursorX snapshot mod 0x100000000)
       @ le32 (cursorY snapshot mod 0x100000000) @ le32 0 @ [])"
    unfolding writeHeader_def u16_def
    by (intro emits_runAll_Cons emits_runAll_Nil emits_writeUInt16LE magic one fl zero
        emits_writeUInt32LE emits_writeInt32LE v)
  then show ?thesis by (simp add: headerBytes_def)
qed

lemma length_colourBytes: "int (length (colourBytes c)) = colourSize c"
  by (simp add: colourBytes_def colourSize_def split: option.splits)

lemma length_cellBytes:
  "int (length (cellBytes cell)) = calculateCellSize cell + (if hasAttrs cell then 1 else 0)"
proof -
  have fg: "\<not> hasFg cell \<Longrightarrow> colourSize (cell_fg cell) = 0"
    and bg: "\<not> hasBg cell \<Longrightarrow> colourSize (cell_bg cell) = 0"
    by (simp_all add: hasFg_def hasBg_def colourSize_def)
  show ?thesis
    using length_colourBytes [of "cell_fg cell"] length_colourBytes [of "cell_bg cell"]
    by (simp add: cellBytes_def calculateCellSize_def utf8Bytes_def)
qed

lemma foldl_plus: "foldl (\<lambda>acc x. acc + f x) (a :: int) xs = a + sum_list (map f xs)"
  by (induction xs arbitrary: a) simp_all

lemma sum_cellBytes:
  "int (length (concat (map cellBytes row))) =
     sum_list (map calculateCellSize row) + int (length (filter hasAttrs row))"
  by (induction row) (simp_all add: length_cellBytes)

text \<open>The number of bytes that \<open>encodeRow\<close> writes beyond the pre-computed size: one for
  every cell with attributes in a row that is not blank.\<close>

definition attributeBytes :: "BufferCell list \<Rightarrow> int" where
  "attributeBytes rowCells = (if isBlankRow rowCells then 0 else int (length (filter hasAttrs rowCells)))"

lemma length_rowBytes:
  "int (length (rowBytes rowCells)) = calculateRowSize rowCells + attributeBytes rowCells"
  by (simp add: rowBytes_def calculateRowSize_def attributeBytes_def foldl_plus sum_cellBytes)

definition frameBody :: "Snapshot \<Rightarrow> Snapshot option \<Rightarrow> byte list" where
  "frameBody snapshot previousSnapshot =
     (case diffDecision snapshot previousSnapshot of
        (useDiff, changedRows) \<Rightarrow>
          if useDiff \<and> length changedRows > 0
          then u16 (int (length changedRows))
               @ concat (map (\<lambda>(index, row). u16 (int index) @ rowBytes row) changedRows)
          else concat (map rowBytes (cells snapshot)))"

definition frameBytes :: "Snapshot \<Rightarrow> Snapshot option \<Rightarrow> byte list" where
  "frameBytes snapshot previousSnapshot =
     headerBytes snapshot (if fst (diffDecision snapshot previousSnapshot) then 1 else 0)
       @ frameBody snapshot previousSnapshot"

definition allocatedSize :: "Snapshot \<Rightarrow> Snapshot option \<Rightarrow> int" where
  "allocatedSize snapshot previousSnapshot =
     (case diffDecision snapshot previousSnapshot of
        (useDiff, changedRows) \<Rightarrow>
          if useDiff \<and> length changedRows > 0 then diffDataSize changedRows
          else fullDataSize (cells snapshot))"

definition snapshotValid :: "Snapshot \<Rightarrow> Snapshot option \<Rightarrow> bool" where
  "snapshotValid snapshot previousSnapshot =
     (headerValid snapshot
      \<and> (case diffDecision snapshot previousSnapshot of
           (useDiff, changedRows) \<Rightarrow>
             if useDiff \<and> length changedRows > 0
             then length changedRows \<le> 0xffff
                  \<and> list_all (\<lambda>(index, row). index \<le> 0xffff \<and> rowValid row) changedRows
             else list_all rowValid (cells snapshot)))"

lemma finish_writeBytes:
  assumes "int (length bs) \<le> dataSize"
  shows "finish useDiff (writeBytes bs (allocUnsafe dataSize, 0)) = Inr (bs, useDiff)"
proof -
  have "length bs \<le> length (allocUnsafe dataSize)"
    using assms by (simp add: allocUnsafe_def)
  then show ?thesis
    by (simp add: writeBytes_def finish_def)
qed

lemma encodeSnapshot_frame:
  assumes valid: "snapshotValid snapshot previousSnapshot"
    and fits: "int (length (frameBytes snapshot previousSnapshot)) \<le> allocatedSize snapshot previousSnapshot"
  shows "encodeSnapshot snapshot previousSnapshot =
           Inr (frameBytes snapshot previousSnapshot, fst (diffDecision snapshot previousSnapshot))"
proof -
  obtain useDiff changedRows where dd: "diffDecision snapshot previousSnapshot = (useDiff, changedRows)"
    by (cases "diffDecision snapshot previousSnapshot")
  define flags :: int where "flags = (if useDiff then 1 else 0)"
  have hv: "headerValid snapshot" using valid by (simp add: snapshotValid_def)
  have hdr: "emits (runAll (writeHeader snapshot flags)) (headerBytes snapshot flags)"
    using hv by (rule emits_writeHeader) (simp add: flags_def)
  show ?thesis
  proof (cases "useDiff \<and> length changedRows > 0")
    case True
    have v: "length changedRows \<le> 0xffff"
      "list_all (\<lambda>(index, row). index \<le> 0xffff \<and> rowValid row) changedRows"
      using valid True by (simp_all add: snapshotValid_def dd)
    have cnt: "emits (runAll [writeUInt16LE (int (length changedRows))]) (u16 (int (length changedRows)))"
      unfolding u16_def using v(1) by (intro emits_single emits_writeUInt16LE) simp_all
    have pair: "emits (runAll ((\<lambda>(index, row). [writeUInt16LE (int index), encodeRow row]) x))
        ((\<lambda>(index, row). u16 (int index) @ rowBytes row) x)" if "x \<in> set changedRows" for x
    proof -
      obtain index row where x: "x = (index, row)" by (cases x)
      have "index \<le> 0xffff" "rowValid row"
        using v(2) that by (auto simp: x list_all_iff)
      then have "emits (runAll [writeUInt16LE (int index), encodeRow row])
          (u16 (int index) @ (rowBytes row @ []))"
        unfolding u16_def
        by (intro emits_runAll_Cons emits_runAll_Nil emits_writeUInt16LE emits_encodeRow) simp_all
      then show ?thesis by (simp add: x)
    qed
    have body: "emits (runAll (concat (map (\<lambda>(index, row). [writeUInt16LE (int index), encodeRow row])
                                       changedRows)))
        (concat (map (\<lambda>(index, row). u16 (int index) @ rowBytes row) changedRows))"
      by (rule emits_runAll_concat) (rule pair)
    have all: "emits (runAll (writeHeader snapshot flags
                           @ [writeUInt16LE (int (length changedRows))]
                           @ concat (map (\<lambda>(index, row). [writeUInt16LE (int index), encodeRow row])
                                       changedRows)))
        (frameBytes snapshot previousSnapshot)"
      unfolding frameBytes_def frameBody_def dd prod.case fst_conv if_P [OF True] flags_def [symmetric]
      by (intro emits_runAll_append hdr cnt body)
    have "encodeSnapshot snapshot previousSnapshot
        = finish useDiff (writeBytes (frameBytes snapshot previousSnapshot)
            (allocUnsafe (diffDataSize changedRows), 0))"
      unfolding encodeSnapshot_def dd prod.case Let_def if_P [OF True] flags_def [symmetric]
      using emitsD [OF all, of 0 "allocUnsafe (diffDataSize changedRows)"] fits True
      by (simp add: allocatedSize_def dd allocUnsafe_def)
    then show ?thesis
      using fits True by (simp add: finish_writeBytes allocatedSize_def dd)
  next
    case False
    have v: "list_all rowValid (cells snapshot)"
      using valid False by (auto simp add: snapshotValid_def dd)
    have body: "emits (runAll (map encodeRow (cells snapshot))) (concat (map rowBytes (cells snapshot)))"
      using v by (intro emits_runAll_map emits_encodeRow) (simp add: list_all_iff)
    have all: "emits (runAll (writeHeader snapshot flags @ map encodeRow (cells snapshot)))
        (frameBytes snapshot previousSnapshot)"
      unfolding frameBytes_def frameBody_def dd prod.case fst_conv if_not_P [OF False] flags_def [symmetric]
      by (intro emits_runAll_append hdr body)
    have "encodeSnapshot snapshot previousSnapshot
        = finish useDiff (writeBytes (frameBytes snapshot previousSnapshot)
            (allocUnsafe (fullDataSize (cells snapshot)), 0))"
      unfolding encodeSnapshot_def dd prod.case Let_def if_not_P [OF False] flags_def [symmetric]
      using emitsD [OF all, of 0 "allocUnsafe (fullDataSize (cells snapshot))"] fits False
      by (auto simp add: allocatedSize_def dd allocUnsafe_def)
    then show ?thesis
      using fits False by (auto simp add: finish_writeBytes allocatedSize_def dd)
  qed
qed


subsection \<open>Example screens\<close>

definition plainCell :: "string \<Rightarrow> BufferCell" where
  "plainCell text = \<lparr> cell_char = text, cell_width = 1, cell_fg = None, cell_bg = None,
                       cell_attributes = None \<rparr>"

definition boldCell :: "string \<Rightarrow> BufferCell" where
  "boldCell text = \<lparr> cell_char = text, cell_width = 1, cell_fg = None, cell_bg = None,
                      cell_attributes = Some 1 \<rparr>"

definition screen :: "int \<Rightarrow> BufferCell list list \<Rightarrow> Snapshot" where
  "screen width rowsOfCells = \<lparr> cols = width, rows = int (length rowsOfCells), viewportY = 0,
                                cursorX = 0, cursorY = 0, cells = rowsOfCells \<rparr>"


subsection \<open>Claims C2, C6 and C10\<close>

lemma hash_ex:
  "hashRow [plainCell ''A''] = ''A:1:::''"
  "hashRow [plainCell ''B''] = ''B:1:::''"
  "hashRow [boldCell ''a''] = ''a:1:::1''"
  by (simp_all add: hashRow_def cellKey_def plainCell_def boldCell_def showInt_def showOptional_def showNat.simps digitChar_def)

lemma dd_ex:
  "diffDecision (screen 1 [[plainCell ''A''], [plainCell ''B'']]) (Some (screen 1 [[plainCell ''A''], [plainCell ''A'']]))
   = (True, [(1, [plainCell ''B''])])"
  by (simp add: diffDecision_def collectChangedRows_def rowChanged_def js_index_def screen_def hash_ex Let_def)

lemmas encode_defs =
  encodeSnapshot_def finish_def writeHeader_def
  encodeRow_def encodeCell_def isBlankRow_def isSpace_def hasAttrs_def hasFg_def hasBg_def isAscii_def
  writeUInt8_def writeUInt16LE_def writeUInt32LE_def writeInt32LE_def writeBytes_def le32_def
  allocUnsafe_def fullDataSize_def diffDataSize_def calculateRowSize_def calculateCellSize_def
  MAGIC_HEADER_def falsy_def colourSize_def encodeColour_def utf8Bytes_def copyBytes_def Let_def

definition sameDimensions :: "Snapshot \<Rightarrow> Snapshot \<Rightarrow> bool" where
  "sameDimensions snapshot previous =
     (cols previous = cols snapshot \<and> rows previous = rows snapshot
      \<and> viewportY previous = viewportY snapshot)"

definition changedRowCount :: "Snapshot \<Rightarrow> Snapshot \<Rightarrow> nat" where
  "changedRowCount snapshot previous =
     length (filter (\<lambda>i. js_index (map hashRow (cells previous)) (int i)
                           \<noteq> Some (hashRow (cells snapshot ! i)))
               [0 ..< length (cells snapshot)])"

definition encodingFits :: "Snapshot \<Rightarrow> Snapshot option \<Rightarrow> bool" where
  "encodingFits snapshot previousSnapshot =
     (int (length (frameBytes snapshot previousSnapshot)) \<le> allocatedSize snapshot previousSnapshot)"

lemmas frame_defs =
  frameBytes_def frameBody_def headerBytes_def rowBytes_def cellBytes_def colourBytes_def u16_def
  styleFlags_def allocatedSize_def snapshotValid_def headerValid_def rowValid_def cellValid_def
  colourValid_def encodingFits_def

lemma length_collectChangedRows:
  "length (collectChangedRows snapshot previous) = changedRowCount snapshot previous"
proof -
  have "filter (rowChanged (map hashRow (cells previous)) (map hashRow (cells snapshot)))
          [0 ..< length (cells snapshot)]
      = filter (\<lambda>i. js_index (map hashRow (cells previous)) (int i)
                           \<noteq> Some (hashRow (cells snapshot ! i)))
          [0 ..< length (cells snapshot)]"
    by (rule filter_cong) (simp_all add: rowChanged_def)
  then show ?thesis
    by (simp add: collectChangedRows_def changedRowCount_def Let_def)
qed

lemma diffDecision_fst:
  "fst (diffDecision snapshot previousSnapshot) =
     (case previousSnapshot of
        None \<Rightarrow> False
      | Some previous \<Rightarrow>
          sameDimensions snapshot previous \<and> 0 < changedRowCount snapshot previous
          \<and> changedRowCount snapshot previous < length (cells snapshot))"
  by (auto simp add: diffDecision_def sameDimensions_def Let_def length_collectChangedRows [symmetric]
      split: option.splits)

lemma diffDecision_snd:
  "diffDecision snapshot previousSnapshot = (True, changedRows) \<Longrightarrow>
     changedRows \<noteq> [] \<and> (\<exists>previous. previousSnapshot = Some previous
        \<and> length changedRows = changedRowCount snapshot previous)"
  by (auto simp add: diffDecision_def Let_def length_collectChangedRows [symmetric]
      split: option.splits if_splits)

lemma encodeSnapshot_usedDiff:
  "encodeSnapshot snapshot previousSnapshot = Inr (bytes, usedDiff) \<Longrightarrow>
     usedDiff = fst (diffDecision snapshot previousSnapshot)"
  by (auto simp add: encodeSnapshot_def finish_def Let_def split: prod.splits sum.splits if_splits)

text \<open>
  The decision itself.  Whenever the encoder returns, \<open>usedDiff\<close> is false if there is no
  previous snapshot or its \<open>cols\<close>, \<open>rows\<close> or \<open>viewportY\<close> differ; otherwise it is true
  exactly when the number of rows whose fingerprint changed is above 0 and below the
  number of rows.  For a snapshot whose values fit their fields and whose frame fits the
  allocated buffer the encoder does return: with \<open>usedDiff\<close> false the frame is the header
  with flag 0 and the record of every row (a full frame), with \<open>usedDiff\<close> true it is the
  header with flag 1, the count of changed rows, which is not 0, and their records.
\<close>

lemma usedDiff_decision:
  "(\<forall>bytes usedDiff.
      encodeSnapshot snapshot previousSnapshot = Inr (bytes, usedDiff) \<longrightarrow>
      usedDiff = (case previousSnapshot of
                    None \<Rightarrow> False
                  | Some previous \<Rightarrow>
                      sameDimensions snapshot previous \<and> 0 < changedRowCount snapshot previous
                      \<and> changedRowCount snapshot previous < length (cells snapshot)))
   \<and> (snapshotValid snapshot previousSnapshot \<and> encodingFits snapshot previousSnapshot \<longrightarrow>
        (\<exists>bytes usedDiff.
           encodeSnapshot snapshot previousSnapshot = Inr (bytes, usedDiff)
           \<and> (\<not> usedDiff \<longrightarrow>
                 bytes = headerBytes snapshot 0 @ concat (map rowBytes (cells snapshot)))
           \<and> (usedDiff \<longrightarrow>
                 (\<exists>changedRows previous.
                    previousSnapshot = Some previous
                    \<and> 0 < length changedRows
                    \<and> length changedRows = changedRowCount snapshot previous
                    \<and> bytes = headerBytes snapshot 1 @ u16 (int (length changedRows))
                        @ concat (map (\<lambda>(index, row). u16 (int index) @ rowBytes row)
                                    changedRows)))))"
proof (intro conjI allI impI)
  fix bytes usedDiff
  assume "encodeSnapshot snapshot previousSnapshot = Inr (bytes, usedDiff)"
  then show "usedDiff = (case previousSnapshot of
                    None \<Rightarrow> False
                  | Some previous \<Rightarrow>
                      sameDimensions snapshot previous \<and> 0 < changedRowCount snapshot previous
                      \<and> changedRowCount snapshot previous < length (cells snapshot))"
    using encodeSnapshot_usedDiff diffDecision_fst by metis
next
  assume a: "snapshotValid snapshot previousSnapshot \<and> encodingFits snapshot previousSnapshot"
  obtain useDiff changedRows where dd: "diffDecision snapshot previousSnapshot = (useDiff, changedRows)"
    by (cases "diffDecision snapshot previousSnapshot")
  have enc: "encodeSnapshot snapshot previousSnapshot = Inr (frameBytes snapshot previousSnapshot, useDiff)"
    using a encodeSnapshot_frame [of snapshot previousSnapshot] by (simp add: encodingFits_def dd)
  show "\<exists>bytes usedDiff.
           encodeSnapshot snapshot previousSnapshot = Inr (bytes, usedDiff)
           \<and> (\<not> usedDiff \<longrightarrow>
                 bytes = headerBytes snapshot 0 @ concat (map rowBytes (cells snapshot)))
           \<and> (usedDiff \<longrightarrow>
                 (\<exists>changedRows previous.
                    previousSnapshot = Some previous
                    \<and> 0 < length changedRows
                    \<and> length changedRows = changedRowCount snapshot previous
                    \<and> bytes = headerBytes snapshot 1 @ u16 (int (length changedRows))
                        @ concat (map (\<lambda>(index, row). u16 (int index) @ rowBytes row)
                                    changedRows)))"
  proof (cases useDiff)
    case False
    then have "frameBytes snapshot previousSnapshot
        = headerBytes snapshot 0 @ concat (map rowBytes (cells snapshot))"
      by (simp add: frameBytes_def frameBody_def dd)
    then have "encodeSnapshot snapshot previousSnapshot =
        Inr (headerBytes snapshot 0 @ concat (map rowBytes (cells snapshot)), False)"
      using enc False by simp
    then show ?thesis by blast
  next
    case True
    then have "diffDecision snapshot previousSnapshot = (True, changedRows)"
      using dd by simp
    from diffDecision_snd [OF this]
    obtain previous where p: "changedRows \<noteq> []" "previousSnapshot = Some previous"
      "length changedRows = changedRowCount snapshot previous"
      by blast
    have "frameBytes snapshot previousSnapshot
        = headerBytes snapshot 1 @ u16 (int (length changedRows))
            @ concat (map (\<lambda>(index, row). u16 (int index) @ rowBytes row) changedRows)"
      using True p(1) by (simp add: frameBytes_def frameBody_def dd)
    then have "encodeSnapshot snapshot previousSnapshot =
        Inr (headerBytes snapshot 1 @ u16 (int (length changedRows))
            @ concat (map (\<lambda>(index, row). u16 (int index) @ rowBytes row) changedRows), True)"
      using enc True by simp
    moreover have "0 < length changedRows" using p(1) by simp
    ultimately show ?thesis using p(2,3) by blast
  qed
qed


lemma usedDiff_decision_example:
  "snapshotValid (screen 1 [[plainCell ''A''], [plainCell ''B'']])
      (Some (screen 1 [[plainCell ''A''], [plainCell ''A'']]))
   \<and> encodingFits (screen 1 [[plainCell ''A''], [plainCell ''B'']])
      (Some (screen 1 [[plainCell ''A''], [plainCell ''A'']]))
   \<and> changedRowCount (screen 1 [[plainCell ''A''], [plainCell ''B'']])
      (screen 1 [[plainCell ''A''], [plainCell ''A'']]) = 1
   \<and> encodeSnapshot (screen 1 [[plainCell ''A''], [plainCell ''B'']])
      (Some (screen 1 [[plainCell ''A''], [plainCell ''A'']]))
     = Inr ([0x54, 0x56, 1, 1,  1, 0, 0, 0,  2, 0, 0, 0,  0, 0, 0, 0,  0, 0, 0, 0,  0, 0, 0, 0,
             0, 0, 0, 0,  1, 0,  1, 0,  1, 1, 0, 1, 0x42], True)"
proof -
  have cells: "cells (screen 1 [[plainCell ''A''], [plainCell ''B'']]) = [[plainCell ''A''], [plainCell ''B'']]"
    by (simp add: screen_def)
  have valid: "snapshotValid (screen 1 [[plainCell ''A''], [plainCell ''B'']])
      (Some (screen 1 [[plainCell ''A''], [plainCell ''A'']]))"
    unfolding snapshotValid_def dd_ex
    by (simp add: headerValid_def rowValid_def cellValid_def colourValid_def screen_def plainCell_def)
  have fits: "encodingFits (screen 1 [[plainCell ''A''], [plainCell ''B'']])
      (Some (screen 1 [[plainCell ''A''], [plainCell ''A'']]))"
    unfolding encodingFits_def frameBytes_def frameBody_def allocatedSize_def dd_ex
    by (simp add: headerBytes_def rowBytes_def cellBytes_def u16_def diffDataSize_def
        calculateRowSize_def calculateCellSize_def isBlankRow_def isSpace_def hasAttrs_def hasFg_def
        hasBg_def isAscii_def plainCell_def)
  have count: "changedRowCount (screen 1 [[plainCell ''A''], [plainCell ''B'']])
      (screen 1 [[plainCell ''A''], [plainCell ''A'']]) = 1"
    using dd_ex length_collectChangedRows [of "screen 1 [[plainCell ''A''], [plainCell ''B'']]"
        "screen 1 [[plainCell ''A''], [plainCell ''A'']]"]
    by (simp add: diffDecision_def Let_def screen_def split: if_splits)
  from usedDiff_decision [of "screen 1 [[plainCell ''A''], [plainCell ''B'']]"
      "Some (screen 1 [[plainCell ''A''], [plainCell ''A'']])"] valid fits
  obtain bytes usedDiff where r:
    "encodeSnapshot (screen 1 [[plainCell ''A''], [plainCell ''B'']])
      (Some (screen 1 [[plainCell ''A''], [plainCell ''A'']])) = Inr (bytes, usedDiff)"
    by blast
  have "encodeSnapshot (screen 1 [[plainCell ''A''], [plainCell ''B'']])
      (Some (screen 1 [[plainCell ''A''], [plainCell ''A'']]))
     = Inr ([0x54, 0x56, 1, 1,  1, 0, 0, 0,  2, 0, 0, 0,  0, 0, 0, 0,  0, 0, 0, 0,  0, 0, 0, 0,
             0, 0, 0, 0,  1, 0,  1, 0,  1, 1, 0, 1, 0x42], True)"
    unfolding encodeSnapshot_def dd_ex
    by (simp add: encode_defs screen_def plainCell_def)
  then show ?thesis using valid fits count by simp
qed


text \<open>
  Claim C2 fails on the code.  The claim has a full frame emitted on every call that
  does not take the diff path.  Take the screen of one row of five cells \<open>a\<close> with
  \<open>attributes = 1\<close>, and the same screen as the previous snapshot: the dimensions agree,
  the row's fingerprint \<open>a:1:::1|a:1:::1|a:1:::1|a:1:::1|a:1:::1\<close> is the same on both
  sides, so no row changed and the full frame path is taken; the buffer allocated for it
  is one byte short (the attributes bytes are not counted) and the last write throws.
  No frame is emitted.  The fingerprint of a cell is \<open>char:width:fg:bg:attributes\<close>, an
  absent value printing as the empty text.
\<close>

theorem unchanged_styled_screen_throws:
  "hashRow [boldCell ''a'', boldCell ''a'', boldCell ''a'', boldCell ''a'', boldCell ''a'']
     = ''a:1:::1|a:1:::1|a:1:::1|a:1:::1|a:1:::1''
   \<and> hashRow [\<lparr> cell_char = ''x'', cell_width = 2, cell_fg = Some 7, cell_bg = Some 300,
                 cell_attributes = None \<rparr>, plainCell ''y''] = ''x:2:7:300:|y:1:::''
   \<and> hashRow [] = ''EMPTY''
   \<and> sameDimensions
        (screen 5 [[boldCell ''a'', boldCell ''a'', boldCell ''a'', boldCell ''a'', boldCell ''a'']])
        (screen 5 [[boldCell ''a'', boldCell ''a'', boldCell ''a'', boldCell ''a'', boldCell ''a'']])
   \<and> changedRowCount
        (screen 5 [[boldCell ''a'', boldCell ''a'', boldCell ''a'', boldCell ''a'', boldCell ''a'']])
        (screen 5 [[boldCell ''a'', boldCell ''a'', boldCell ''a'', boldCell ''a'', boldCell ''a'']]) = 0
   \<and> diffDecision
        (screen 5 [[boldCell ''a'', boldCell ''a'', boldCell ''a'', boldCell ''a'', boldCell ''a'']])
        (Some (screen 5 [[boldCell ''a'', boldCell ''a'', boldCell ''a'', boldCell ''a'', boldCell ''a'']]))
       = (False, [])
   \<and> encodeSnapshot
        (screen 5 [[boldCell ''a'', boldCell ''a'', boldCell ''a'', boldCell ''a'', boldCell ''a'']])
        (Some (screen 5 [[boldCell ''a'', boldCell ''a'', boldCell ''a'', boldCell ''a'', boldCell ''a'']]))
       = Inl RangeError"
proof -
  define row where "row = [boldCell ''a'', boldCell ''a'', boldCell ''a'', boldCell ''a'', boldCell ''a'']"
  have h1: "hashRow row = ''a:1:::1|a:1:::1|a:1:::1|a:1:::1|a:1:::1''"
    by (simp add: row_def hashRow_def cellKey_def boldCell_def showInt_def showOptional_def
        showNat.simps digitChar_def)
  have h2: "hashRow [\<lparr> cell_char = ''x'', cell_width = 2, cell_fg = Some 7, cell_bg = Some 300,
                 cell_attributes = None \<rparr>, plainCell ''y''] = ''x:2:7:300:|y:1:::''"
    by (simp add: hashRow_def cellKey_def plainCell_def showInt_def showOptional_def
        showNat.simps digitChar_def)
  have h3: "hashRow [] = ''EMPTY''"
    by (simp add: hashRow_def)
  have same: "sameDimensions (screen 5 [row]) (screen 5 [row])"
    by (simp add: sameDimensions_def)
  have count: "changedRowCount (screen 5 [row]) (screen 5 [row]) = 0"
    by (simp add: changedRowCount_def screen_def js_index_def)
  have "collectChangedRows (screen 5 [row]) (screen 5 [row]) = []"
    using length_collectChangedRows [of "screen 5 [row]" "screen 5 [row]"] count by simp
  then have dd: "diffDecision (screen 5 [row]) (Some (screen 5 [row])) = (False, [])"
    by (simp add: diffDecision_def Let_def)
  have "encodeSnapshot (screen 5 [row]) (Some (screen 5 [row])) = Inl RangeError"
    unfolding encodeSnapshot_def dd
    by (simp add: encode_defs screen_def row_def boldCell_def)
  then show ?thesis
    using h1 h2 h3 same count dd unfolding row_def by simp
qed


text \<open>
  Claim C6, as amended.  For a snapshot whose values fit their fields and whose frame
  fits the allocated buffer, the encoded frame begins with a header of 28 bytes: magic
  (2 bytes), version, flag byte, \<open>cols\<close>, \<open>rows\<close>, \<open>viewportY\<close>, \<open>cursorX\<close>, \<open>cursorY\<close>
  and a reserved field (4 bytes each).  It is followed by the records of all rows or,
  when the diff flag is set, by a 16-bit row count and for each changed row its 16-bit
  index and its record.
\<close>

theorem frame_layout:
  assumes "snapshotValid snapshot previousSnapshot"
    and "encodingFits snapshot previousSnapshot"
  shows "\<exists>flag body usedDiff.
           encodeSnapshot snapshot previousSnapshot = Inr (headerBytes snapshot flag @ body, usedDiff)
           \<and> length (headerBytes snapshot flag) = 28
           \<and> headerBytes snapshot flag =
                 u16 0x5654 @ [0x01, of_int flag] @ le32 (cols snapshot) @ le32 (rows snapshot)
                   @ le32 (viewportY snapshot mod 0x100000000)
                   @ le32 (cursorX snapshot mod 0x100000000)
                   @ le32 (cursorY snapshot mod 0x100000000) @ le32 0
           \<and> flag = (if usedDiff then 1 else 0)
           \<and> (if usedDiff
                then \<exists>changedRows. changedRows \<noteq> []
                       \<and> body = u16 (int (length changedRows))
                           @ concat (map (\<lambda>(index, row). u16 (int index) @ rowBytes row) changedRows)
                else body = concat (map rowBytes (cells snapshot)))"
proof -
  obtain useDiff changedRows where dd: "diffDecision snapshot previousSnapshot = (useDiff, changedRows)"
    by (cases "diffDecision snapshot previousSnapshot")
  have enc: "encodeSnapshot snapshot previousSnapshot =
      Inr (headerBytes snapshot (if useDiff then 1 else 0) @ frameBody snapshot previousSnapshot, useDiff)"
    using assms encodeSnapshot_frame [of snapshot previousSnapshot]
    by (simp add: encodingFits_def dd frameBytes_def)
  have hdr: "headerBytes snapshot flag =
                 u16 0x5654 @ [0x01, of_int flag] @ le32 (cols snapshot) @ le32 (rows snapshot)
                   @ le32 (viewportY snapshot mod 0x100000000)
                   @ le32 (cursorX snapshot mod 0x100000000)
                   @ le32 (cursorY snapshot mod 0x100000000) @ le32 0" for flag
    by (simp add: headerBytes_def MAGIC_HEADER_def)
  have body: "if useDiff
                then \<exists>changedRows. changedRows \<noteq> []
                       \<and> frameBody snapshot previousSnapshot = u16 (int (length changedRows))
                           @ concat (map (\<lambda>(index, row). u16 (int index) @ rowBytes row) changedRows)
                else frameBody snapshot previousSnapshot = concat (map rowBytes (cells snapshot))"
  proof (cases useDiff)
    case True
    then have "diffDecision snapshot previousSnapshot = (True, changedRows)"
      using dd by simp
    from diffDecision_snd [OF this] have "changedRows \<noteq> []" by simp
    then have "changedRows \<noteq> []
        \<and> frameBody snapshot previousSnapshot = u16 (int (length changedRows))
                           @ concat (map (\<lambda>(index, row). u16 (int index) @ rowBytes row) changedRows)"
      using True by (simp add: frameBody_def dd)
    then show ?thesis unfolding if_P [OF True] by (rule exI)
  next
    case False
    then show ?thesis by (simp add: frameBody_def dd)
  qed
  show ?thesis
    by (intro exI [of _ "if useDiff then 1 else 0"] exI [of _ "frameBody snapshot previousSnapshot"]
        exI [of _ useDiff] conjI enc length_headerBytes hdr refl body)
qed

theorem frame_layout_witness:
  "snapshotValid (screen 1 [[plainCell ''A'']]) None
   \<and> encodingFits (screen 1 [[plainCell ''A'']]) None
   \<and> encodeSnapshot (screen 1 [[plainCell ''A'']]) None =
       Inr ([0x54, 0x56, 1, 0,  1, 0, 0, 0,  1, 0, 0, 0,  0, 0, 0, 0,  0, 0, 0, 0,  0, 0, 0, 0,
             0, 0, 0, 0] @ [1, 1, 0, 1, 0x41], False)"
proof -
  have dd: "diffDecision (screen 1 [[plainCell ''A'']]) None = (False, [])"
    by (simp add: diffDecision_def)
  have valid: "snapshotValid (screen 1 [[plainCell ''A'']]) None"
    unfolding snapshotValid_def dd
    by (simp add: headerValid_def rowValid_def cellValid_def colourValid_def screen_def plainCell_def)
  have fits: "encodingFits (screen 1 [[plainCell ''A'']]) None"
    unfolding encodingFits_def frameBytes_def frameBody_def allocatedSize_def dd
    by (simp add: headerBytes_def rowBytes_def cellBytes_def u16_def fullDataSize_def
        calculateRowSize_def calculateCellSize_def isBlankRow_def isSpace_def hasAttrs_def hasFg_def
        hasBg_def isAscii_def plainCell_def screen_def)
  from frame_layout [OF valid fits]
  obtain flag body usedDiff where
    "encodeSnapshot (screen 1 [[plainCell ''A'']]) None = Inr (headerBytes (screen 1 [[plainCell ''A'']]) flag @ body, usedDiff)"
    "flag = (if usedDiff then 1 else 0)"
    "if usedDiff then \<exists>changedRows. changedRows \<noteq> []
                       \<and> body = u16 (int (length changedRows))
                           @ concat (map (\<lambda>(index, row). u16 (int index) @ rowBytes row) changedRows)
     else body = concat (map rowBytes (cells (screen 1 [[plainCell ''A'']])))"
    by blast
  moreover have "\<not> usedDiff"
    using encodeSnapshot_usedDiff [OF calculation(1)] dd by simp
  ultimately have "encodeSnapshot (screen 1 [[plainCell ''A'']]) None =
      Inr (headerBytes (screen 1 [[plainCell ''A'']]) 0
           @ concat (map rowBytes (cells (screen 1 [[plainCell ''A'']]))), False)"
    by simp
  then have "encodeSnapshot (screen 1 [[plainCell ''A'']]) None =
       Inr ([0x54, 0x56, 1, 0,  1, 0, 0, 0,  1, 0, 0, 0,  0, 0, 0, 0,  0, 0, 0, 0,  0, 0, 0, 0,
             0, 0, 0, 0] @ [1, 1, 0, 1, 0x41], False)"
    by (simp add: headerBytes_def rowBytes_def cellBytes_def u16_def le32_def MAGIC_HEADER_def
        isBlankRow_def isSpace_def hasAttrs_def hasFg_def hasBg_def isAscii_def plainCell_def screen_def)
  then show ?thesis using valid fits by simp
qed

text \<open>
  As stated, C6 gives the header 16 bytes.  The frame of a screen of one row with the
  single cell \<open>A\<close> has 33 bytes; the row's record is what follows byte 28, not what
  follows byte 16.
\<close>

theorem header_is_not_16_bytes:
  "encodeSnapshot (screen 1 [[plainCell ''A'']]) None =
     Inr ([0x54, 0x56, 1, 0,  1, 0, 0, 0,  1, 0, 0, 0,  0, 0, 0, 0,  0, 0, 0, 0,  0, 0, 0, 0,
           0, 0, 0, 0,  1, 1, 0, 1, 0x41], False)
   \<and> rowBytes [plainCell ''A''] = [1, 1, 0, 1, 0x41]
   \<and> drop 28 [0x54, 0x56, 1, 0,  1, 0, 0, 0,  1, 0, 0, 0,  0, 0, 0, 0,  0, 0, 0, 0,  0, 0, 0, 0,
           0, 0, 0, 0,  1, 1, 0, 1, 0x41 :: byte] = rowBytes [plainCell ''A'']
   \<and> drop 16 [0x54, 0x56, 1, 0,  1, 0, 0, 0,  1, 0, 0, 0,  0, 0, 0, 0,  0, 0, 0, 0,  0, 0, 0, 0,
           0, 0, 0, 0,  1, 1, 0, 1, 0x41 :: byte] \<noteq> rowBytes [plainCell ''A'']"
proof -
  have "encodeSnapshot (screen 1 [[plainCell ''A'']]) None =
     Inr ([0x54, 0x56, 1, 0,  1, 0, 0, 0,  1, 0, 0, 0,  0, 0, 0, 0,  0, 0, 0, 0,  0, 0, 0, 0,
           0, 0, 0, 0,  1, 1, 0, 1, 0x41], False)"
    by (simp add: encode_defs diffDecision_def screen_def plainCell_def)
  moreover have "rowBytes [plainCell ''A''] = [1, 1, 0, 1, 0x41]"
    by (simp add: rowBytes_def cellBytes_def u16_def isBlankRow_def isSpace_def hasAttrs_def
        hasFg_def hasBg_def isAscii_def plainCell_def)
  ultimately show ?thesis by simp
qed

text \<open>
  Claim C10 fails on the code.  \<open>calculateCellSize\<close> counts the flags byte of a styled
  cell but not the attributes byte that \<open>encodeRow\<close> writes after it
  (\<open>length_rowBytes\<close>: one byte more for every cell with attributes).  For a row of five
  cells \<open>a\<close> with \<open>attributes = 1\<close> the pre-computed row size is 18 while \<open>encodeRow\<close>
  writes 23 bytes; the full frame needs 28 + 23 = 51 bytes, 50 are allocated, and the
  last write throws.
\<close>

theorem attributes_overflow:
  "calculateRowSize [boldCell ''a'', boldCell ''a'', boldCell ''a'', boldCell ''a'', boldCell ''a''] = 18
   \<and> map_sum id snd (encodeRow [boldCell ''a'', boldCell ''a'', boldCell ''a'', boldCell ''a'', boldCell ''a'']
        (allocUnsafe 64, 0)) = Inr 23
   \<and> fullDataSize [[boldCell ''a'', boldCell ''a'', boldCell ''a'', boldCell ''a'', boldCell ''a'']] = 50
   \<and> encodeSnapshot
        (screen 5 [[boldCell ''a'', boldCell ''a'', boldCell ''a'', boldCell ''a'', boldCell ''a'']]) None
       = Inl RangeError"
  by (simp add: encode_defs diffDecision_def screen_def boldCell_def)


lemma fullDataSize_sum: "fullDataSize rs = 32 + sum_list (map calculateRowSize rs)"
  by (simp add: fullDataSize_def foldl_plus)

lemma diffDataSize_sum:
  "diffDataSize changed = 34 + sum_list (map (\<lambda>(index, row). 2 + calculateRowSize row) changed)"
proof -
  have "foldl (\<lambda>dataSize (index, row). dataSize + 2 + calculateRowSize row) a changed
      = a + sum_list (map (\<lambda>(index, row). 2 + calculateRowSize row) changed)" for a
    by (induction changed arbitrary: a) (simp_all split: prod.splits)
  then show ?thesis by (simp add: diffDataSize_def)
qed

lemma length_rows_plain:
  assumes "\<And>row. row \<in> set rs \<Longrightarrow> attributeBytes row = 0"
  shows "int (length (concat (map rowBytes rs))) = sum_list (map calculateRowSize rs)"
  using assms by (induction rs) (simp_all add: length_rowBytes)

lemma length_pairs_plain:
  assumes "list_all (\<lambda>(index, row). attributeBytes row = 0) changed"
  shows "int (length (concat (map (\<lambda>(index, row). u16 (int index) @ rowBytes row) changed)))
         = sum_list (map (\<lambda>(index, row). 2 + calculateRowSize row) changed)"
  using assms by (induction changed) (auto simp add: length_rowBytes)

lemma changedRows_subset:
  "diffDecision snapshot previousSnapshot = (True, changed) \<Longrightarrow> (index, row) \<in> set changed
     \<Longrightarrow> row \<in> set (cells snapshot)"
  by (auto simp add: diffDecision_def collectChangedRows_def Let_def split: option.splits if_splits)

text \<open>When no cell carries attributes the pre-computed size covers the frame, with the
  four bytes to spare that the 32 of the size computation has over the 28 of the header.\<close>

lemma encodingFits_without_attributes:
  assumes "\<And>row cell. row \<in> set (cells snapshot) \<Longrightarrow> cell \<in> set row \<Longrightarrow> \<not> hasAttrs cell"
  shows "encodingFits snapshot previousSnapshot"
proof -
  have plain: "attributeBytes row = 0" if "row \<in> set (cells snapshot)" for row
    using assms [OF that] by (simp add: attributeBytes_def filter_empty_conv)
  obtain useDiff changed where dd: "diffDecision snapshot previousSnapshot = (useDiff, changed)"
    by (cases "diffDecision snapshot previousSnapshot")
  show ?thesis
  proof (cases "useDiff \<and> length changed > 0")
    case True
    then have "diffDecision snapshot previousSnapshot = (True, changed)" using dd by simp
    then have "attributeBytes row = 0" if "(index, row) \<in> set changed" for index row
      using changedRows_subset that plain by blast
    then have "list_all (\<lambda>(index, row). attributeBytes row = 0) changed"
      by (auto simp add: list_all_iff)
    then have "int (length (concat (map (\<lambda>(index, row). u16 (int index) @ rowBytes row) changed)))
         = sum_list (map (\<lambda>(index, row). 2 + calculateRowSize row) changed)"
      by (rule length_pairs_plain)
    then show ?thesis
      using True
      by (simp add: encodingFits_def frameBytes_def frameBody_def allocatedSize_def dd
          length_headerBytes diffDataSize_sum)
  next
    case False
    have "int (length (concat (map rowBytes (cells snapshot)))) = sum_list (map calculateRowSize (cells snapshot))"
      using plain by (rule length_rows_plain)
    then show ?thesis
      using False
      by (auto simp add: encodingFits_def frameBytes_def frameBody_def allocatedSize_def dd
          length_headerBytes fullDataSize_sum)
  qed
qed



section \<open>Task offload pool\<close>





record WorkerTaskResponse =
  resp_id :: nat
  resp_result :: nat
  resp_error :: "string option"


































section \<open>Event stream connections\<close>

text \<open>
  The router keeps the set \<open>clients\<close> of open event streams and, per client key, the
  set of that key's connections (\<open>clientBuckets\<close>).  A JavaScript \<open>Set\<close> iterates in
  insertion order, so a set is a list without repetition, oldest first.  A connection
  object is identified by \<open>conn_id\<close>, drawn from a counter: every request builds a new
  object.  What the router does to the responses is written down next to its state:
  \<open>endedResponses\<close> holds the connections whose response was ended, \<open>refusedRequests\<close> the number of
  requests answered with status 429.
\<close>

record ClientConnection =
  conn_id :: nat
  conn_key :: string

record events_router =
  clients :: "ClientConnection list"
  clientBuckets :: "string \<rightharpoonup> ClientConnection list"
  sessionMonitorAttached :: bool
  hasSessionMonitor :: bool
  nextConnection :: nat
  endedResponses :: "ClientConnection list"
  refusedRequests :: nat

definition setAdd :: "'a \<Rightarrow> 'a list \<Rightarrow> 'a list" where
  "setAdd x xs = (if x \<in> set xs then xs else xs @ [x])"

definition setDelete :: "'a \<Rightarrow> 'a list \<Rightarrow> 'a list" where
  "setDelete x xs = removeAll x xs"

text \<open>
  Lines 11-18.  \<open>configured\<close> is what \<open>Number.parseInt\<close> returned for the environment
  variable, \<open>None\<close> when that is not a finite number (the variable is unset or does not
  start with digits); the result is the cap, \<open>None\<close> for \<open>Infinity\<close>.
\<close>

definition MAX_CONNECTIONS_PER_KEY :: "int option \<Rightarrow> int option" where
  "MAX_CONNECTIONS_PER_KEY configured =
     (case configured of
        None \<Rightarrow> None
      | Some v \<Rightarrow> if v > 0 then Some v else None)"

text \<open>\<open>MAX_CONNECTIONS_PER_KEY !== Infinity && bucket.size >= MAX_CONNECTIONS_PER_KEY\<close>\<close>

definition atCapacity :: "int option \<Rightarrow> ClientConnection list \<Rightarrow> bool" where
  "atCapacity cap bucket = (case cap of None \<Rightarrow> False | Some m \<Rightarrow> int (length bucket) \<ge> m)"

text \<open>Lines 70-78.\<close>

definition detachSessionMonitorIfIdle :: "events_router \<Rightarrow> events_router" where
  "detachSessionMonitorIfIdle st =
     (if \<not> hasSessionMonitor st \<or> \<not> sessionMonitorAttached st then st
      else if length (clients st) = 0 then st\<lparr>sessionMonitorAttached := False\<rparr>
      else st)"

text \<open>Lines 62-68.\<close>

definition attachSessionMonitor :: "events_router \<Rightarrow> events_router" where
  "attachSessionMonitor st =
     (if \<not> hasSessionMonitor st \<or> sessionMonitorAttached st then st
      else st\<lparr>sessionMonitorAttached := True\<rparr>)"

text \<open>Lines 80-100.  The response is ended unless it has ended already.\<close>

definition cleanupClient :: "ClientConnection \<Rightarrow> events_router \<Rightarrow> events_router" where
  "cleanupClient client st =
     (if client \<in> set (clients st) then
        (let st1 = st\<lparr>endedResponses := setAdd client (endedResponses st),
                      clients := setDelete client (clients st)\<rparr>;
             st2 = (case clientBuckets st1 (conn_key client) of
                      None \<Rightarrow> st1
                    | Some bucket \<Rightarrow>
                        if length (setDelete client bucket) = 0
                        then st1\<lparr>clientBuckets := (clientBuckets st1)(conn_key client := None)\<rparr>
                        else st1\<lparr>clientBuckets :=
                                   (clientBuckets st1)(conn_key client \<mapsto> setDelete client bucket)\<rparr>)
         in detachSessionMonitorIfIdle st2)
      else st)"

text \<open>Lines 107-111 and 122-126: the key's bucket, created when the map has none.\<close>

definition ensureBucket :: "string \<Rightarrow> events_router \<Rightarrow> events_router" where
  "ensureBucket clientKey st =
     (case clientBuckets st clientKey of
        None \<Rightarrow> st\<lparr>clientBuckets := (clientBuckets st)(clientKey \<mapsto> [])\<rparr>
      | Some bucket \<Rightarrow> st)"

definition bucketOf :: "events_router \<Rightarrow> string \<Rightarrow> ClientConnection list" where
  "bucketOf st clientKey = (case clientBuckets st clientKey of None \<Rightarrow> [] | Some bucket \<Rightarrow> bucket)"

datatype connect_outcome =
    Refused
  | WriteFailed
  | Admitted ClientConnection

text \<open>
  Lines 137-165, once the cap let the request through.  \<open>writeOk\<close> tells whether the
  first \<open>res.write\<close> returned; when it throws the handler returns and the connection is
  not registered.
\<close>

definition admit :: "string \<Rightarrow> bool \<Rightarrow> events_router \<Rightarrow> connect_outcome \<times> events_router" where
  "admit clientKey writeOk st =
     (if \<not> writeOk then (WriteFailed, st)
      else (let client = \<lparr> conn_id = nextConnection st, conn_key = clientKey \<rparr>;
                st1 = st\<lparr>nextConnection := nextConnection st + 1,
                         clients := setAdd client (clients st),
                         clientBuckets :=
                           (clientBuckets st)(clientKey \<mapsto> setAdd client (bucketOf st clientKey))\<rparr>
            in (Admitted client, attachSessionMonitor st1)))"

text \<open>Lines 103-135: the handler of \<open>GET /events\<close> for a request with the derived key
  \<open>clientKey\<close>, under the cap \<open>cap\<close>.\<close>

text \<open>Lines 114-120: \<open>bucket.values().next().value\<close> is the connection added first, and
  \<open>undefined\<close> on an empty bucket.\<close>

definition evictOldest :: "string \<Rightarrow> events_router \<Rightarrow> events_router" where
  "evictOldest clientKey st =
     (case bucketOf st clientKey of
        [] \<Rightarrow> st
      | oldest # others \<Rightarrow> cleanupClient oldest st)"

definition getEvents ::
  "int option \<Rightarrow> string \<Rightarrow> bool \<Rightarrow> events_router \<Rightarrow> connect_outcome \<times> events_router" where
  "getEvents cap clientKey writeOk st =
     (let st1 = ensureBucket clientKey st
      in if atCapacity cap (bucketOf st1 clientKey) then
           (let st2 = evictOldest clientKey st1;
                st3 = ensureBucket clientKey st2
            in if atCapacity cap (bucketOf st3 clientKey)
               then (Refused, st3\<lparr>refusedRequests := refusedRequests st3 + 1\<rparr>)
               else admit clientKey writeOk st3)
         else admit clientKey writeOk st1)"

text \<open>What happens to a router: a request arrives, or a connection is cleaned up (its
  request closed or failed, or a write to it threw).\<close>

datatype router_event =
    Connect string bool
  | Cleanup ClientConnection

fun applyRouterEvent :: "int option \<Rightarrow> events_router \<Rightarrow> router_event \<Rightarrow> events_router" where
  "applyRouterEvent cap st (Connect clientKey writeOk) = snd (getEvents cap clientKey writeOk st)"
| "applyRouterEvent cap st (Cleanup client) = cleanupClient client st"

definition newRouter :: "bool \<Rightarrow> events_router" where
  "newRouter monitor =
     \<lparr> clients = [], clientBuckets = Map.empty, sessionMonitorAttached = False,
       hasSessionMonitor = monitor, nextConnection = 0, endedResponses = [], refusedRequests = 0 \<rparr>"

subsection \<open>Claim C7: the cap per client key\<close>

text \<open>What holds of every state the router reaches: the sets have no repetition, a
  bucket holds open connections of its own key, connection objects are older than the
  counter, and no bucket is larger than the cap.\<close>

definition withinCap :: "int option \<Rightarrow> ClientConnection list \<Rightarrow> bool" where
  "withinCap cap bucket = (case cap of None \<Rightarrow> True | Some m \<Rightarrow> int (length bucket) \<le> m)"

definition routerInv :: "int option \<Rightarrow> events_router \<Rightarrow> bool" where
  "routerInv cap st \<longleftrightarrow>
     distinct (clients st)
     \<and> (\<forall>c \<in> set (clients st). conn_id c < nextConnection st)
     \<and> (\<forall>k bucket. clientBuckets st k = Some bucket \<longrightarrow>
           distinct bucket \<and> set bucket \<subseteq> set (clients st) \<and> (\<forall>c \<in> set bucket. conn_key c = k)
           \<and> withinCap cap bucket)"

lemma withinCap_shorter:
  assumes "withinCap cap bucket"
  shows "withinCap cap (removeAll c bucket)"
proof (cases cap)
  case None
  then show ?thesis by (simp add: withinCap_def)
next
  case (Some m)
  have "int (length (removeAll c bucket)) \<le> int (length bucket)"
    by simp
  moreover have "int (length bucket) \<le> m"
    using assms Some by (simp add: withinCap_def)
  ultimately have "int (length (removeAll c bucket)) \<le> m"
    by (rule order_trans)
  then show ?thesis
    using Some by (simp add: withinCap_def)
qed

lemma withinCap_snoc: "\<not> atCapacity cap bucket \<Longrightarrow> withinCap cap (bucket @ [c])"
  by (cases cap) (simp_all add: withinCap_def atCapacity_def)


lemma cap_positive: "MAX_CONNECTIONS_PER_KEY configured = Some m \<Longrightarrow> 0 < m"
  by (simp add: MAX_CONNECTIONS_PER_KEY_def split: option.splits if_splits)

lemma bucketOf_ensureBucket: "bucketOf (ensureBucket k st) k' = bucketOf st k'"
  by (simp add: bucketOf_def ensureBucket_def split: option.splits)

lemma ensureBucket_fields:
  "clients (ensureBucket k st) = clients st"
  "endedResponses (ensureBucket k st) = endedResponses st"
  "nextConnection (ensureBucket k st) = nextConnection st"
  by (simp_all add: ensureBucket_def split: option.splits)

lemma ensureBucket_Some: "clientBuckets (ensureBucket k st) k = Some (bucketOf st k)"
  by (simp add: bucketOf_def ensureBucket_def split: option.splits)

lemma routerInv_new: "routerInv cap (newRouter monitor)"
  by (simp add: routerInv_def newRouter_def)

lemma routerInv_ensureBucket:
  assumes "routerInv (MAX_CONNECTIONS_PER_KEY configured) st"
  shows "routerInv (MAX_CONNECTIONS_PER_KEY configured) (ensureBucket k st)"
proof (cases "clientBuckets st k")
  case (Some bucket)
  then show ?thesis using assms by (simp add: ensureBucket_def)
next
  case None
  have "withinCap (MAX_CONNECTIONS_PER_KEY configured) []"
    using cap_positive [of configured] by (auto simp add: withinCap_def split: option.splits)
  then show ?thesis
    using assms None by (auto simp add: routerInv_def ensureBucket_def)
qed

lemma detach_fields:
  "clients (detachSessionMonitorIfIdle st) = clients st"
  "clientBuckets (detachSessionMonitorIfIdle st) = clientBuckets st"
  "endedResponses (detachSessionMonitorIfIdle st) = endedResponses st"
  "nextConnection (detachSessionMonitorIfIdle st) = nextConnection st"
  "refusedRequests (detachSessionMonitorIfIdle st) = refusedRequests st"
  by (simp_all add: detachSessionMonitorIfIdle_def)

lemma attach_fields:
  "clients (attachSessionMonitor st) = clients st"
  "clientBuckets (attachSessionMonitor st) = clientBuckets st"
  "endedResponses (attachSessionMonitor st) = endedResponses st"
  "nextConnection (attachSessionMonitor st) = nextConnection st"
  "refusedRequests (attachSessionMonitor st) = refusedRequests st"
  by (simp_all add: attachSessionMonitor_def)

text \<open>The cleanup of an open connection, field by field.\<close>

lemma cleanupClient_fields:
  assumes "client \<in> set (clients st)"
  shows "clients (cleanupClient client st) = removeAll client (clients st)"
    and "endedResponses (cleanupClient client st) = setAdd client (endedResponses st)"
    and "nextConnection (cleanupClient client st) = nextConnection st"
    and "clientBuckets (cleanupClient client st) k =
          (if k = conn_key client then
             (case clientBuckets st k of
                None \<Rightarrow> None
              | Some bucket \<Rightarrow> if removeAll client bucket = [] then None
                               else Some (removeAll client bucket))
           else clientBuckets st k)"
  using assms
  by (simp_all add: cleanupClient_def Let_def detach_fields setDelete_def split: option.splits)

lemma cleanupClient_absent: "client \<notin> set (clients st) \<Longrightarrow> cleanupClient client st = st"
  by (simp add: cleanupClient_def)

lemma bucketOf_cleanupClient:
  assumes "client \<in> set (clients st)"
  shows "bucketOf (cleanupClient client st) k =
     (if k = conn_key client then removeAll client (bucketOf st k) else bucketOf st k)"
  using assms by (simp add: bucketOf_def cleanupClient_fields split: option.splits)

lemma routerInv_cleanupClient:
  assumes inv: "routerInv cap st"
  shows "routerInv cap (cleanupClient client st)"
proof (cases "client \<in> set (clients st)")
  case False
  then show ?thesis using inv by (simp add: cleanupClient_absent)
next
  case True
  have d: "distinct (clients st)"
    and ids: "\<forall>c \<in> set (clients st). conn_id c < nextConnection st"
    and buckets: "\<And>k bucket. clientBuckets st k = Some bucket \<Longrightarrow>
           distinct bucket \<and> set bucket \<subseteq> set (clients st) \<and> (\<forall>c \<in> set bucket. conn_key c = k)
           \<and> withinCap cap bucket"
    using inv unfolding routerInv_def by blast+
  have "distinct bucket' \<and> set bucket' \<subseteq> set (clients (cleanupClient client st))
      \<and> (\<forall>c \<in> set bucket'. conn_key c = k)
      \<and> withinCap cap bucket'"
    if b: "clientBuckets (cleanupClient client st) k = Some bucket'" for k bucket'
  proof (cases "k = conn_key client")
    case False
    then have old: "clientBuckets st k = Some bucket'"
      using b True by (simp add: cleanupClient_fields)
    then have "client \<notin> set bucket'"
      using buckets [OF old] False by auto
    then show ?thesis
      using buckets [OF old] True by (auto simp add: cleanupClient_fields)
  next
    case same: True
    then obtain bucket where old: "clientBuckets st k = Some bucket"
      and new: "bucket' = removeAll client bucket"
      using b True by (auto simp add: cleanupClient_fields split: option.splits if_splits)
    show ?thesis
      using buckets [OF old] True withinCap_shorter [of cap bucket client]
      by (auto simp add: new cleanupClient_fields distinct_removeAll)
  qed
  moreover have "distinct (clients (cleanupClient client st))"
    using d True by (simp add: cleanupClient_fields distinct_removeAll)
  moreover have "\<forall>c \<in> set (clients (cleanupClient client st)).
      conn_id c < nextConnection (cleanupClient client st)"
    using ids True by (simp add: cleanupClient_fields)
  ultimately show ?thesis
    unfolding routerInv_def by blast
qed

lemma routerInv_evictOldest: "routerInv cap st \<Longrightarrow> routerInv cap (evictOldest k st)"
  by (simp add: evictOldest_def routerInv_cleanupClient split: list.splits)

lemma admit_failed: "admit k False st = (WriteFailed, st)"
  by (simp add: admit_def)

lemma admit_buckets:
  "clientBuckets (snd (admit k True st)) k' =
     (if k' = k then Some (setAdd \<lparr> conn_id = nextConnection st, conn_key = k \<rparr> (bucketOf st k))
      else clientBuckets st k')"
  by (simp add: admit_def Let_def attach_fields)

lemma admit_fields:
  assumes inv: "routerInv cap st"
  shows "fst (admit k True st) = Admitted \<lparr> conn_id = nextConnection st, conn_key = k \<rparr>"
    and "clients (snd (admit k True st)) = clients st @ [\<lparr> conn_id = nextConnection st, conn_key = k \<rparr>]"
    and "bucketOf (snd (admit k True st)) k' =
          (if k' = k then bucketOf st k @ [\<lparr> conn_id = nextConnection st, conn_key = k \<rparr>]
           else bucketOf st k')"
    and "endedResponses (snd (admit k True st)) = endedResponses st"
    and "nextConnection (snd (admit k True st)) = nextConnection st + 1"
proof -
  define client where "client = \<lparr> conn_id = nextConnection st, conn_key = k \<rparr>"
  have fresh: "client \<notin> set (clients st)"
    using inv unfolding routerInv_def client_def by fastforce
  have "set (bucketOf st k) \<subseteq> set (clients st)"
  proof (cases "clientBuckets st k")
    case None
    then show ?thesis by (simp add: bucketOf_def)
  next
    case (Some bucket)
    then show ?thesis using inv unfolding routerInv_def bucketOf_def by fastforce
  qed
  then have fresh': "client \<notin> set (bucketOf st k)"
    using fresh by blast
  show "fst (admit k True st) = Admitted \<lparr> conn_id = nextConnection st, conn_key = k \<rparr>"
    by (simp add: admit_def Let_def)
  show "clients (snd (admit k True st)) = clients st @ [\<lparr> conn_id = nextConnection st, conn_key = k \<rparr>]"
    using fresh by (simp add: admit_def Let_def attach_fields setAdd_def client_def)
  show "bucketOf (snd (admit k True st)) k' =
          (if k' = k then bucketOf st k @ [\<lparr> conn_id = nextConnection st, conn_key = k \<rparr>]
           else bucketOf st k')"
  proof (cases "k' = k")
    case True
    have "bucketOf (snd (admit k True st)) k = setAdd client (bucketOf st k)"
      unfolding client_def by (simp add: bucketOf_def [of "snd (admit k True st)"] admit_buckets)
    then show ?thesis
      using fresh' True by (simp add: setAdd_def client_def)
  next
    case False
    then show ?thesis
      by (simp add: bucketOf_def admit_buckets)
  qed
  show "endedResponses (snd (admit k True st)) = endedResponses st"
    by (simp add: admit_def Let_def attach_fields)
  show "nextConnection (snd (admit k True st)) = nextConnection st + 1"
    by (simp add: admit_def Let_def attach_fields)
qed

lemma routerInv_admit:
  assumes inv: "routerInv cap st"
    and room: "\<not> atCapacity cap (bucketOf st k)"
  shows "routerInv cap (snd (admit k writeOk st))"
proof (cases writeOk)
  case False
  then show ?thesis using inv by (simp add: admit_failed)
next
  case True
  define client where "client = \<lparr> conn_id = nextConnection st, conn_key = k \<rparr>"
  have d: "distinct (clients st)"
    and ids: "\<forall>c \<in> set (clients st). conn_id c < nextConnection st"
    and buckets: "\<And>k bucket. clientBuckets st k = Some bucket \<Longrightarrow>
           distinct bucket \<and> set bucket \<subseteq> set (clients st) \<and> (\<forall>c \<in> set bucket. conn_key c = k)
           \<and> withinCap cap bucket"
    using inv unfolding routerInv_def by blast+
  have fresh: "client \<notin> set (clients st)"
    using ids unfolding client_def by fastforce
  have own: "distinct (bucketOf st k) \<and> set (bucketOf st k) \<subseteq> set (clients st)
      \<and> (\<forall>c \<in> set (bucketOf st k). conn_key c = k)"
    using buckets [of k] by (cases "clientBuckets st k") (simp_all add: bucketOf_def)
  have size: "withinCap cap (bucketOf st k @ [client])"
    using room by (rule withinCap_snoc)
  have cl: "clients (snd (admit k True st)) = clients st @ [client]"
    unfolding client_def using inv by (rule admit_fields)
  have "distinct bucket' \<and> set bucket' \<subseteq> set (clients st @ [client])
      \<and> (\<forall>c \<in> set bucket'. conn_key c = k')
      \<and> withinCap cap bucket'"
    if b: "clientBuckets (snd (admit k True st)) k' = Some bucket'" for k' bucket'
  proof (cases "k' = k")
    case False
    then have "clientBuckets st k' = Some bucket'"
      using b by (simp add: admit_buckets)
    from buckets [OF this] show ?thesis by auto
  next
    case same: True
    have "client \<notin> set (bucketOf st k)"
      using own fresh by blast
    then have "bucket' = bucketOf st k @ [client]"
      using b same by (simp add: admit_buckets setAdd_def client_def)
    then show ?thesis
      using own size fresh same unfolding client_def by auto
  qed
  moreover have "distinct (clients st @ [client])"
    using d fresh by simp
  moreover have "\<forall>c \<in> set (clients st @ [client]). conn_id c < nextConnection st + 1"
    using ids by (auto simp add: client_def)
  ultimately have "routerInv cap (snd (admit k True st))"
    unfolding routerInv_def cl admit_fields(5) [OF inv] by blast
  then show ?thesis
    using True by simp
qed

lemma routerInv_getEvents:
  assumes "routerInv (MAX_CONNECTIONS_PER_KEY configured) st"
  shows "routerInv (MAX_CONNECTIONS_PER_KEY configured)
           (snd (getEvents (MAX_CONNECTIONS_PER_KEY configured) k writeOk st))"
proof -
  let ?cap = "MAX_CONNECTIONS_PER_KEY configured"
  have i1: "routerInv ?cap (ensureBucket k st)"
    using assms by (rule routerInv_ensureBucket)
  have i3: "routerInv ?cap (ensureBucket k (evictOldest k (ensureBucket k st)))"
    by (intro routerInv_ensureBucket routerInv_evictOldest i1)
  have refusedInv: "routerInv ?cap (s\<lparr>refusedRequests := n\<rparr>)" if "routerInv ?cap s" for s n
    using that by (simp add: routerInv_def)
  show ?thesis
    unfolding getEvents_def Let_def
    by (auto simp add: i1 i3 refusedInv routerInv_admit)
qed

lemma routerInv_applyRouterEvent:
  "routerInv (MAX_CONNECTIONS_PER_KEY configured) st \<Longrightarrow>
     routerInv (MAX_CONNECTIONS_PER_KEY configured)
       (applyRouterEvent (MAX_CONNECTIONS_PER_KEY configured) st event)"
  by (cases event) (simp_all add: routerInv_getEvents routerInv_cleanupClient)

lemma routerInv_reachable:
  "routerInv (MAX_CONNECTIONS_PER_KEY configured) st \<Longrightarrow>
     routerInv (MAX_CONNECTIONS_PER_KEY configured)
       (foldl (applyRouterEvent (MAX_CONNECTIONS_PER_KEY configured)) st events)"
  by (induction events arbitrary: st) (simp_all add: routerInv_applyRouterEvent)


lemma getEvents_room:
  assumes "\<not> atCapacity cap (bucketOf st k)"
  shows "getEvents cap k writeOk st = admit k writeOk (ensureBucket k st)"
  using assms by (simp add: getEvents_def Let_def bucketOf_ensureBucket)

lemma getEvents_full:
  assumes "atCapacity cap (bucketOf st k)"
  shows "getEvents cap k writeOk st =
     (if atCapacity cap (bucketOf (evictOldest k (ensureBucket k st)) k)
      then (Refused, (ensureBucket k (evictOldest k (ensureBucket k st)))
              \<lparr>refusedRequests := refusedRequests (ensureBucket k (evictOldest k (ensureBucket k st))) + 1\<rparr>)
      else admit k writeOk (ensureBucket k (evictOldest k (ensureBucket k st))))"
  using assms by (simp add: getEvents_def Let_def bucketOf_ensureBucket)

lemma admit_not_refused: "fst (admit k writeOk st) \<noteq> Refused"
  by (simp add: admit_def Let_def)

lemma bucketOf_evictOldest_ensureBucket:
  "bucketOf (evictOldest k (ensureBucket k st)) k = bucketOf (evictOldest k st) k"
proof (cases "bucketOf st k")
  case Nil
  then show ?thesis by (simp add: evictOldest_def bucketOf_ensureBucket)
next
  case (Cons oldest others)
  then have some: "clientBuckets st k = Some (oldest # others)"
    by (simp add: bucketOf_def split: option.splits)
  then have "ensureBucket k st = st"
    by (simp add: ensureBucket_def)
  then show ?thesis by simp
qed

lemma getEvents_refused:
  "fst (getEvents cap k writeOk st) = Refused \<longleftrightarrow>
     atCapacity cap (bucketOf st k) \<and> atCapacity cap (bucketOf (evictOldest k st) k)"
proof (cases "atCapacity cap (bucketOf st k)")
  case False
  then show ?thesis by (simp add: getEvents_room admit_not_refused)
next
  case True
  then show ?thesis
    by (simp add: getEvents_full admit_not_refused bucketOf_evictOldest_ensureBucket)
qed

lemma admit_result:
  assumes inv: "routerInv cap st"
  shows "fst (admit k writeOk st) =
           (if writeOk then Admitted \<lparr> conn_id = nextConnection st, conn_key = k \<rparr> else WriteFailed)"
    and "clients (snd (admit k writeOk st)) =
           clients st @ (if writeOk then [\<lparr> conn_id = nextConnection st, conn_key = k \<rparr>] else [])"
    and "bucketOf (snd (admit k writeOk st)) k =
           bucketOf st k @ (if writeOk then [\<lparr> conn_id = nextConnection st, conn_key = k \<rparr>] else [])"
    and "endedResponses (snd (admit k writeOk st)) = endedResponses st"
  by (cases writeOk; simp add: admit_failed admit_fields [OF inv])+

text \<open>
  Claim C7, as amended.  Let \<open>st\<close> be a state that the router reaches, \<open>bucket\<close> the
  connections of the key of an arriving request, oldest first, and \<open>new\<close> the connection
  object the handler builds.  If the configured cap is unset or not above 0 no bucket is
  ever at capacity.  When the bucket is not at capacity nothing is ended.  When it is,
  the oldest connection of the bucket is ended and removed from the clients and from the
  bucket.  In both cases the request is not refused, and the new connection joins the
  clients and the bucket as the newest, provided that the first write to its response
  does not throw; when it throws the handler returns, and the new connection is not
  registered (an eviction made before stays).  For any state at all, the request is
  refused exactly when the bucket is at capacity before and after the eviction.
  After the request no bucket is larger than the cap.
\<close>

theorem per_key_cap:
  assumes cap: "cap = MAX_CONNECTIONS_PER_KEY configured"
    and st: "st = foldl (applyRouterEvent cap) (newRouter monitor) events"
    and bucket: "bucket = bucketOf st clientKey"
    and new: "new = \<lparr> conn_id = nextConnection st, conn_key = clientKey \<rparr>"
    and res: "(outcome, st') = getEvents cap clientKey writeOk st"
  shows "((\<forall>v. configured = Some v \<longrightarrow> v \<le> 0) \<longrightarrow> \<not> atCapacity cap anyBucket)
    \<and> (\<not> atCapacity cap bucket \<longrightarrow>
          endedResponses st' = endedResponses st
          \<and> outcome = (if writeOk then Admitted new else WriteFailed)
          \<and> clients st' = clients st @ (if writeOk then [new] else [])
          \<and> bucketOf st' clientKey = bucket @ (if writeOk then [new] else []))
    \<and> (atCapacity cap bucket \<longrightarrow>
          bucket \<noteq> [] \<and> hd bucket \<in> set (clients st)
          \<and> hd bucket \<in> set (endedResponses st') \<and> hd bucket \<notin> set (clients st')
          \<and> outcome = (if writeOk then Admitted new else WriteFailed)
          \<and> clients st' = removeAll (hd bucket) (clients st) @ (if writeOk then [new] else [])
          \<and> bucketOf st' clientKey = tl bucket @ (if writeOk then [new] else []))
    \<and> (fst (getEvents cap clientKey writeOk anyState) = Refused \<longleftrightarrow>
          atCapacity cap (bucketOf anyState clientKey)
          \<and> atCapacity cap (bucketOf (evictOldest clientKey anyState) clientKey))
    \<and> (cap = Some m \<longrightarrow> int (length (bucketOf st' anyKey)) \<le> m)"
proof (intro conjI impI)
  have inv: "routerInv cap st"
    unfolding st cap by (rule routerInv_reachable) (rule routerInv_new)
  have out: "outcome = fst (getEvents cap clientKey writeOk st)"
    and st': "st' = snd (getEvents cap clientKey writeOk st)"
    using res by (simp_all add: fst_def snd_def split: prod.splits) (metis fst_conv snd_conv)+
  have inv1: "routerInv cap (ensureBucket clientKey st)"
    using inv unfolding cap by (rule routerInv_ensureBucket)
  have next1: "nextConnection (ensureBucket clientKey st) = nextConnection st"
    by (rule ensureBucket_fields)
  show "fst (getEvents cap clientKey writeOk anyState) = Refused \<longleftrightarrow>
          atCapacity cap (bucketOf anyState clientKey)
          \<and> atCapacity cap (bucketOf (evictOldest clientKey anyState) clientKey)"
    by (rule getEvents_refused)
  {
    assume "\<forall>v. configured = Some v \<longrightarrow> v \<le> 0"
    then have "cap = None"
      by (auto simp add: cap MAX_CONNECTIONS_PER_KEY_def split: option.splits)
    then show "\<not> atCapacity cap anyBucket"
      by (simp add: atCapacity_def)
  }
  {
    assume m: "cap = Some m"
    have "routerInv cap st'"
      unfolding st' cap using inv [unfolded cap] by (rule routerInv_getEvents)
    then have "withinCap cap (bucketOf st' anyKey)"
      using m cap_positive [of configured m]
      by (cases "clientBuckets st' anyKey") (auto simp add: routerInv_def bucketOf_def withinCap_def cap)
    then show "int (length (bucketOf st' anyKey)) \<le> m"
      using m by (simp add: withinCap_def)
  }
  {
    assume room: "\<not> atCapacity cap bucket"
    then have ge: "getEvents cap clientKey writeOk st = admit clientKey writeOk (ensureBucket clientKey st)"
      unfolding bucket by (rule getEvents_room)
    show "endedResponses st' = endedResponses st"
      unfolding st' ge by (simp add: admit_result [OF inv1] ensureBucket_fields)
    show "outcome = (if writeOk then Admitted new else WriteFailed)"
      unfolding out ge new by (simp add: admit_result [OF inv1] next1)
    show "clients st' = clients st @ (if writeOk then [new] else [])"
      unfolding st' ge new by (simp add: admit_result [OF inv1] next1 ensureBucket_fields)
    show "bucketOf st' clientKey = bucket @ (if writeOk then [new] else [])"
      unfolding st' ge new bucket by (simp add: admit_result [OF inv1] next1 bucketOf_ensureBucket)
  }
  {
    assume full: "atCapacity cap bucket"
    then obtain m where m: "cap = Some m" and ge_m: "m \<le> int (length bucket)"
      by (auto simp add: atCapacity_def split: option.splits)
    have mpos: "0 < m"
      using m cap cap_positive by metis
    then have nonempty: "bucket \<noteq> []"
      using ge_m by auto
    then obtain oldest others where b: "bucket = oldest # others"
      by (cases bucket) auto
    have some: "clientBuckets st clientKey = Some bucket"
      using nonempty unfolding bucket bucketOf_def by (auto split: option.splits)
    then have props: "distinct bucket" "set bucket \<subseteq> set (clients st)" "withinCap cap bucket"
      using inv unfolding routerInv_def by blast+
    have same: "ensureBucket clientKey st = st"
      using some by (simp add: ensureBucket_def)
    have mem: "oldest \<in> set (clients st)"
      using props(2) b by simp
    have ev: "evictOldest clientKey st = cleanupClient oldest st"
      using b by (simp add: evictOldest_def bucket [symmetric])
    define st2 where "st2 = cleanupClient oldest st"
    have key: "conn_key oldest = clientKey"
      using inv some b unfolding routerInv_def by fastforce
    have b2: "bucketOf st2 clientKey = others"
      using props(1) by (simp add: st2_def bucketOf_cleanupClient [OF mem] key bucket [symmetric] b)
    have "int (length bucket) \<le> m"
      using props(3) m by (simp add: withinCap_def)
    then have room: "\<not> atCapacity cap (bucketOf st2 clientKey)"
      by (simp add: b2 atCapacity_def m b)
    have inv3: "routerInv cap (ensureBucket clientKey st2)"
      unfolding cap st2_def
      by (intro routerInv_ensureBucket routerInv_cleanupClient inv [unfolded cap])
    have ge: "getEvents cap clientKey writeOk st = admit clientKey writeOk (ensureBucket clientKey st2)"
      using full room unfolding bucket
      by (simp add: getEvents_full same ev st2_def)
    have f3: "clients (ensureBucket clientKey st2) = removeAll oldest (clients st)"
      "endedResponses (ensureBucket clientKey st2) = setAdd oldest (endedResponses st)"
      "nextConnection (ensureBucket clientKey st2) = nextConnection st"
      "bucketOf (ensureBucket clientKey st2) clientKey = others"
      by (simp_all add: ensureBucket_fields bucketOf_ensureBucket b2)
        (simp_all add: st2_def cleanupClient_fields [OF mem])
    have fresh: "new \<noteq> oldest"
      using inv mem unfolding routerInv_def new by fastforce
    show "bucket \<noteq> []" by (rule nonempty)
    show "hd bucket \<in> set (clients st)" using mem b by simp
    show "hd bucket \<in> set (endedResponses st')"
      unfolding st' ge by (simp add: admit_result [OF inv3] f3 b setAdd_def)
    show "outcome = (if writeOk then Admitted new else WriteFailed)"
      unfolding out ge new by (simp add: admit_result [OF inv3] f3)
    show "clients st' = removeAll (hd bucket) (clients st) @ (if writeOk then [new] else [])"
      unfolding st' ge new by (simp add: admit_result [OF inv3] f3 b)
    then show "hd bucket \<notin> set (clients st')"
      using fresh by (simp add: b)
    show "bucketOf st' clientKey = tl bucket @ (if writeOk then [new] else [])"
      unfolding st' ge new by (simp add: admit_result [OF inv3] f3 b)
  }
qed

lemma oneConnection:
  "foldl (applyRouterEvent (MAX_CONNECTIONS_PER_KEY (Some 1))) (newRouter True) [Connect ''k'' True] =
     \<lparr> clients = [\<lparr> conn_id = 0, conn_key = ''k'' \<rparr>],
       clientBuckets = [''k'' \<mapsto> [\<lparr> conn_id = 0, conn_key = ''k'' \<rparr>]],
       sessionMonitorAttached = True, hasSessionMonitor = True, nextConnection = 1,
       endedResponses = [], refusedRequests = 0 \<rparr>"
  by (simp add: MAX_CONNECTIONS_PER_KEY_def newRouter_def getEvents_def ensureBucket_def
      bucketOf_def atCapacity_def admit_def attachSessionMonitor_def setAdd_def Let_def)

lemma capOne: "MAX_CONNECTIONS_PER_KEY (Some 1) = Some 1"
  by (simp add: MAX_CONNECTIONS_PER_KEY_def)

theorem per_key_cap_witness:
  "\<lparr> conn_id = 0, conn_key = ''k'' \<rparr> \<in> set (endedResponses (snd (getEvents (MAX_CONNECTIONS_PER_KEY (Some 1)) ''k'' True
       (foldl (applyRouterEvent (MAX_CONNECTIONS_PER_KEY (Some 1))) (newRouter True)
          [Connect ''k'' True]))))
   \<and> fst (getEvents (MAX_CONNECTIONS_PER_KEY (Some 1)) ''k'' True
       (foldl (applyRouterEvent (MAX_CONNECTIONS_PER_KEY (Some 1))) (newRouter True)
          [Connect ''k'' True])) = Admitted \<lparr> conn_id = 1, conn_key = ''k'' \<rparr>
   \<and> clients (snd (getEvents (MAX_CONNECTIONS_PER_KEY (Some 1)) ''k'' True
       (foldl (applyRouterEvent (MAX_CONNECTIONS_PER_KEY (Some 1))) (newRouter True)
          [Connect ''k'' True]))) = [\<lparr> conn_id = 1, conn_key = ''k'' \<rparr>]
   \<and> bucketOf (snd (getEvents (MAX_CONNECTIONS_PER_KEY (Some 1)) ''k'' True
       (foldl (applyRouterEvent (MAX_CONNECTIONS_PER_KEY (Some 1))) (newRouter True)
          [Connect ''k'' True]))) ''k'' = [\<lparr> conn_id = 1, conn_key = ''k'' \<rparr>]"
proof -
  note all = per_key_cap [OF refl refl refl refl prod.collapse,
      where configured = "Some 1" and monitor = True and events = "[Connect ''k'' True]"
        and clientKey = "''k''" and writeOk = True]
  from all [THEN conjunct2, THEN conjunct2, THEN conjunct1]
  show ?thesis
    unfolding oneConnection by (simp add: capOne atCapacity_def bucketOf_def)
qed

text \<open>
  As stated, C7 has the new connection admitted whenever the oldest one is evicted.
  With a cap of 1 and one open connection for the key, a request whose first write
  throws ends the open connection and registers none: no client is left.
\<close>

theorem eviction_without_admission:
  "clients (foldl (applyRouterEvent (MAX_CONNECTIONS_PER_KEY (Some 1))) (newRouter True)
      [Connect ''k'' True]) = [\<lparr> conn_id = 0, conn_key = ''k'' \<rparr>]
   \<and> fst (getEvents (MAX_CONNECTIONS_PER_KEY (Some 1)) ''k'' False
       (foldl (applyRouterEvent (MAX_CONNECTIONS_PER_KEY (Some 1))) (newRouter True)
          [Connect ''k'' True])) = WriteFailed
   \<and> endedResponses (snd (getEvents (MAX_CONNECTIONS_PER_KEY (Some 1)) ''k'' False
       (foldl (applyRouterEvent (MAX_CONNECTIONS_PER_KEY (Some 1))) (newRouter True)
          [Connect ''k'' True]))) = [\<lparr> conn_id = 0, conn_key = ''k'' \<rparr>]
   \<and> clients (snd (getEvents (MAX_CONNECTIONS_PER_KEY (Some 1)) ''k'' False
       (foldl (applyRouterEvent (MAX_CONNECTIONS_PER_KEY (Some 1))) (newRouter True)
          [Connect ''k'' True]))) = []"
proof -
  define st where "st = \<lparr> clients = [\<lparr> conn_id = 0, conn_key = ''k'' \<rparr>],
       clientBuckets = [''k'' \<mapsto> [\<lparr> conn_id = 0, conn_key = ''k'' \<rparr>]],
       sessionMonitorAttached = True, hasSessionMonitor = True, nextConnection = 1,
       endedResponses = [], refusedRequests = 0 \<rparr>"
  have e: "ensureBucket ''k'' st = st"
    by (simp add: ensureBucket_def st_def)
  have b: "bucketOf st ''k'' = [\<lparr> conn_id = 0, conn_key = ''k'' \<rparr>]"
    by (simp add: bucketOf_def st_def)
  have ev: "evictOldest ''k'' st = st\<lparr>clients := [], clientBuckets := Map.empty,
      endedResponses := [\<lparr> conn_id = 0, conn_key = ''k'' \<rparr>], sessionMonitorAttached := False\<rparr>"
    unfolding evictOldest_def b
    by (simp add: st_def cleanupClient_def detachSessionMonitorIfIdle_def setAdd_def
        setDelete_def Let_def)
  have "getEvents (Some 1) ''k'' False st =
      (WriteFailed, st\<lparr>clients := [], clientBuckets := [''k'' \<mapsto> []],
         endedResponses := [\<lparr> conn_id = 0, conn_key = ''k'' \<rparr>], sessionMonitorAttached := False\<rparr>)"
    unfolding getEvents_def Let_def e ev b
    by (simp add: atCapacity_def ensureBucket_def bucketOf_def admit_def st_def)
  then show ?thesis
    unfolding oneConnection unfolding capOne st_def by simp
qed


section \<open>Buffer aggregator: the subscriptions of a client\<close>

text \<open>
  A JavaScript \<open>Map\<close> is a list of key-value pairs in insertion order, each key at most
  once: \<open>set\<close> replaces the value of a key in place or appends the pair, \<open>get\<close> is
  \<open>map_of\<close>.
\<close>

fun mapSet :: "'k \<Rightarrow> 'v \<Rightarrow> ('k \<times> 'v) list \<Rightarrow> ('k \<times> 'v) list" where
  "mapSet k v [] = [(k, v)]"
| "mapSet k v ((k', v') # entries) =
     (if k' = k then (k, v) # entries else (k', v') # mapSet k v entries)"

definition mapDelete :: "'k \<Rightarrow> ('k \<times> 'v) list \<Rightarrow> ('k \<times> 'v) list" where
  "mapDelete k entries = filter (\<lambda>entry. fst entry \<noteq> k) entries"

definition mapHas :: "('k \<times> 'v) list \<Rightarrow> 'k \<Rightarrow> bool" where
  "mapHas entries k = (map_of entries k \<noteq> None)"

text \<open>
  The functions stored in a client's subscription map: the one that
  \<open>subscribeToBufferChanges\<close> returned, numbered by the order of these calls, or the empty
  function stored for a session of a remote server.
\<close>

datatype unsubscribe =
    WatcherUnsubscribe nat
  | RemoteUnsubscribe

text \<open>The messages sent over a socket, as the objects given to \<open>JSON.stringify\<close>;
  \<open>Subscribed sessionId dedup\<close> is \<open>{type: 'subscribed', sessionId}\<close>, with
  \<open>dedup: true\<close> added when the flag is set.\<close>

datatype ws_message =
    Connected
  | Subscribed string bool
  | ErrorMessage string
  | Pong
  | BufferUpdate string
  | HistoryChunk string
  | SubscribeRequest string
  | UnsubscribeRequest string

record RemoteWebSocketConnection =
  remote_open :: bool
  remote_subscriptions :: "string list"

text \<open>
  The aggregator's maps and configuration, and next to them what it does to the outside:
  the messages given to \<open>send\<close> on client sockets and on remote sockets, the sessions
  for which \<open>terminalManager.subscribeToBufferChanges\<close> returned a subscription
  (\<open>watcherSubscriptions\<close>, the \<open>i\<close>-th being undone by \<open>WatcherUnsubscribe i\<close>), the
  sessions given to \<open>historyStore.subscribe\<close>, and the subscriptions undone.  A client
  socket is identified by a number.
\<close>

record BufferAggregator =
  clientSubscriptions :: "(nat \<times> (string \<times> unsubscribe) list) list"
  historySubscriptions :: "(string \<times> nat) list"
  remoteConnections :: "(string \<times> RemoteWebSocketConnection) list"
  isHQMode :: bool
  hasRemoteRegistry :: bool
  hasHistoryStore :: bool
  sentToClient :: "(nat \<times> ws_message) list"
  sentToRemote :: "(string \<times> ws_message) list"
  watcherSubscriptions :: "string list"
  watcherUnsubscribed :: "nat list"
  storeSubscriptions :: "string list"
  storeUnsubscribed :: "nat list"

text \<open>
  What the outside answers while one message is handled: the remote server that the
  registry knows for a session, whether the client socket is open, whether
  \<open>subscribeToBufferChanges\<close> resolves, whether the initial snapshot is obtained and
  encoded, whether the history store has a cached chunk, and whether a connection to a
  remote server can be established.  A handler is run to its end: what it awaits is
  answered before the next message is handled.
\<close>

record environment =
  remoteOfSession :: "string \<Rightarrow> string option"
  clientOpen :: bool
  subscribeResolves :: bool
  snapshotResolves :: bool
  cachedChunk :: bool
  connectResolves :: bool

record client_message =
  msg_type :: string
  msg_sessionId :: "string option"

definition send :: "nat \<Rightarrow> ws_message \<Rightarrow> BufferAggregator \<Rightarrow> BufferAggregator" where
  "send clientWs message st = st\<lparr>sentToClient := sentToClient st @ [(clientWs, message)]\<rparr>"

text \<open>Lines 94-103.\<close>

definition handleClientConnection :: "nat \<Rightarrow> BufferAggregator \<Rightarrow> BufferAggregator" where
  "handleClientConnection ws st =
     send ws Connected (st\<lparr>clientSubscriptions := mapSet ws [] (clientSubscriptions st)\<rparr>)"

text \<open>Lines 206-215.\<close>

definition ensureHistorySubscription :: "string \<Rightarrow> BufferAggregator \<Rightarrow> BufferAggregator" where
  "ensureHistorySubscription sessionId st =
     (if \<not> hasHistoryStore st then st
      else if mapHas (historySubscriptions st) sessionId then st
      else st\<lparr>storeSubscriptions := storeSubscriptions st @ [sessionId],
              historySubscriptions :=
                mapSet sessionId (length (storeSubscriptions st)) (historySubscriptions st)\<rparr>)"

text \<open>Lines 217-230 and 255-270.\<close>

definition sendCachedHistoryChunk ::
  "environment \<Rightarrow> nat \<Rightarrow> string \<Rightarrow> BufferAggregator \<Rightarrow> BufferAggregator" where
  "sendCachedHistoryChunk env clientWs sessionId st =
     (if \<not> hasHistoryStore st then st
      else if \<not> cachedChunk env then st
      else if \<not> clientOpen env then st
      else send clientWs (HistoryChunk sessionId) st)"

text \<open>Lines 286-294.\<close>

definition getTotalSubscribers :: "BufferAggregator \<Rightarrow> string \<Rightarrow> nat" where
  "getTotalSubscribers st sessionId =
     length (filter (\<lambda>entry. mapHas (snd entry) sessionId) (clientSubscriptions st))"

text \<open>Lines 272-284.\<close>

definition cleanupHistorySubscription :: "string \<Rightarrow> BufferAggregator \<Rightarrow> BufferAggregator" where
  "cleanupHistorySubscription sessionId st =
     (if \<not> hasHistoryStore st then st
      else if getTotalSubscribers st sessionId > 0 then st
      else (case map_of (historySubscriptions st) sessionId of
              None \<Rightarrow> st
            | Some subscription \<Rightarrow>
                st\<lparr>storeUnsubscribed := storeUnsubscribed st @ [subscription],
                   historySubscriptions := mapDelete sessionId (historySubscriptions st)\<rparr>))"

text \<open>The client's own map, updated in place: \<open>subscriptions.set\<close> and
  \<open>subscriptions.delete\<close> on the object stored in \<open>clientSubscriptions\<close>.\<close>

definition setSubscription ::
  "nat \<Rightarrow> string \<Rightarrow> unsubscribe \<Rightarrow> BufferAggregator \<Rightarrow> BufferAggregator" where
  "setSubscription clientWs sessionId unsubscribe st =
     (case map_of (clientSubscriptions st) clientWs of
        None \<Rightarrow> st
      | Some subscriptions \<Rightarrow>
          st\<lparr>clientSubscriptions :=
               mapSet clientWs (mapSet sessionId unsubscribe subscriptions) (clientSubscriptions st)\<rparr>)"

definition deleteSubscription :: "nat \<Rightarrow> string \<Rightarrow> BufferAggregator \<Rightarrow> BufferAggregator" where
  "deleteSubscription clientWs sessionId st =
     (case map_of (clientSubscriptions st) clientWs of
        None \<Rightarrow> st
      | Some subscriptions \<Rightarrow>
          st\<lparr>clientSubscriptions :=
               mapSet clientWs (mapDelete sessionId subscriptions) (clientSubscriptions st)\<rparr>)"

text \<open>
  Lines 299-375.  When \<open>subscribeToBufferChanges\<close> rejects nothing is stored; when a
  later step of the \<open>try\<close> block rejects the subscription stays stored.  In both cases
  the \<open>catch\<close> block sends an error message.
\<close>

definition subscribeToLocalSession ::
  "environment \<Rightarrow> nat \<Rightarrow> string \<Rightarrow> BufferAggregator \<Rightarrow> BufferAggregator" where
  "subscribeToLocalSession env clientWs sessionId st =
     (case map_of (clientSubscriptions st) clientWs of
        None \<Rightarrow> st
      | Some subscriptions \<Rightarrow>
          if \<not> subscribeResolves env
          then send clientWs (ErrorMessage ''Failed to subscribe to session'') st
          else (let st1 = st\<lparr>watcherSubscriptions := watcherSubscriptions st @ [sessionId]\<rparr>;
                    st2 = setSubscription clientWs sessionId
                            (WatcherUnsubscribe (length (watcherSubscriptions st))) st1;
                    st3 = ensureHistorySubscription sessionId st2
                in if \<not> snapshotResolves env
                   then send clientWs (ErrorMessage ''Failed to subscribe to session'') st3
                   else (let st4 = (if clientOpen env
                                    then send clientWs (BufferUpdate sessionId) st3 else st3)
                         in sendCachedHistoryChunk env clientWs sessionId st4)))"

text \<open>Lines 422-498, as far as the aggregator's state goes: a connection that could be
  established is stored, open and without subscriptions.\<close>

definition connectToRemote :: "environment \<Rightarrow> string \<Rightarrow> BufferAggregator \<Rightarrow> bool \<times> BufferAggregator" where
  "connectToRemote env remoteId st =
     (if \<not> hasRemoteRegistry st then (False, st)
      else if \<not> connectResolves env then (False, st)
      else (True, st\<lparr>remoteConnections :=
                        mapSet remoteId \<lparr> remote_open = True, remote_subscriptions = [] \<rparr>
                          (remoteConnections st)\<rparr>))"

text \<open>Lines 380-417.\<close>

definition subscribeOnRemote ::
  "nat \<Rightarrow> string \<Rightarrow> string \<Rightarrow> BufferAggregator \<Rightarrow> BufferAggregator" where
  "subscribeOnRemote clientWs sessionId remoteId st =
     (case map_of (remoteConnections st) remoteId of
        None \<Rightarrow> st
      | Some remoteConn \<Rightarrow>
          (let remoteConn' = remoteConn\<lparr>remote_subscriptions :=
                  (if sessionId \<in> set (remote_subscriptions remoteConn)
                   then remote_subscriptions remoteConn
                   else remote_subscriptions remoteConn @ [sessionId])\<rparr>;
               st1 = st\<lparr>remoteConnections := mapSet remoteId remoteConn' (remoteConnections st),
                        sentToRemote := sentToRemote st @ [(remoteId, SubscribeRequest sessionId)]\<rparr>
           in setSubscription clientWs sessionId RemoteUnsubscribe st1))"

definition subscribeToRemoteSession ::
  "environment \<Rightarrow> nat \<Rightarrow> string \<Rightarrow> string \<Rightarrow> BufferAggregator \<Rightarrow> BufferAggregator" where
  "subscribeToRemoteSession env clientWs sessionId remoteId st =
     (if (case map_of (remoteConnections st) remoteId of
            None \<Rightarrow> True
          | Some remoteConn \<Rightarrow> \<not> remote_open remoteConn)
      then (case connectToRemote env remoteId st of
              (established, st1) \<Rightarrow>
                if \<not> established
                then send clientWs (ErrorMessage ''Failed to connect to remote server'') st1
                else subscribeOnRemote clientWs sessionId remoteId st1)
      else subscribeOnRemote clientWs sessionId remoteId st)"

text \<open>The call of the function stored in the client's map.\<close>

fun callUnsubscribe :: "unsubscribe \<Rightarrow> BufferAggregator \<Rightarrow> BufferAggregator" where
  "callUnsubscribe (WatcherUnsubscribe i) st = st\<lparr>watcherUnsubscribed := watcherUnsubscribed st @ [i]\<rparr>"
| "callUnsubscribe RemoteUnsubscribe st = st"

text \<open>Lines 179-198.\<close>

definition unsubscribeFromRemote :: "environment \<Rightarrow> string \<Rightarrow> BufferAggregator \<Rightarrow> BufferAggregator" where
  "unsubscribeFromRemote env sessionId st =
     (if isHQMode st \<and> hasRemoteRegistry st then
        (case remoteOfSession env sessionId of
           None \<Rightarrow> st
         | Some remoteId \<Rightarrow>
             (case map_of (remoteConnections st) remoteId of
                None \<Rightarrow> st
              | Some remoteConn \<Rightarrow>
                  (let remoteConn' = remoteConn\<lparr>remote_subscriptions :=
                          removeAll sessionId (remote_subscriptions remoteConn)\<rparr>;
                       st1 = st\<lparr>remoteConnections :=
                                  mapSet remoteId remoteConn' (remoteConnections st)\<rparr>
                   in if remote_open remoteConn
                      then st1\<lparr>sentToRemote :=
                                 sentToRemote st1 @ [(remoteId, UnsubscribeRequest sessionId)]\<rparr>
                      else st1)))
      else st)"

text \<open>\<open>data.sessionId\<close> as a condition: present and not the empty text.\<close>

definition truthySessionId :: "client_message \<Rightarrow> string option" where
  "truthySessionId data =
     (case msg_sessionId data of
        None \<Rightarrow> None
      | Some sessionId \<Rightarrow> if sessionId = [] then None else Some sessionId)"

text \<open>Lines 135-204.\<close>

definition handleClientMessage ::
  "environment \<Rightarrow> nat \<Rightarrow> client_message \<Rightarrow> BufferAggregator \<Rightarrow> BufferAggregator" where
  "handleClientMessage env clientWs data st =
     (case map_of (clientSubscriptions st) clientWs of
        None \<Rightarrow> st
      | Some subscriptions \<Rightarrow>
          (case truthySessionId data of
             Some sessionId \<Rightarrow>
               if msg_type data = ''subscribe'' then
                 (if mapHas subscriptions sessionId
                  then send clientWs (Subscribed sessionId True) st
                  else (let isRemoteSession =
                              (if isHQMode st \<and> hasRemoteRegistry st
                               then remoteOfSession env sessionId else None);
                            st1 = (case isRemoteSession of
                                     Some remoteId \<Rightarrow>
                                       subscribeToRemoteSession env clientWs sessionId remoteId st
                                   | None \<Rightarrow> subscribeToLocalSession env clientWs sessionId st)
                        in send clientWs (Subscribed sessionId False) st1))
               else if msg_type data = ''unsubscribe'' then
                 (let st1 = (case map_of subscriptions sessionId of
                               None \<Rightarrow> st
                             | Some unsubscribe \<Rightarrow>
                                 deleteSubscription clientWs sessionId (callUnsubscribe unsubscribe st));
                      st2 = unsubscribeFromRemote env sessionId st1
                  in cleanupHistorySubscription sessionId st2)
               else if msg_type data = ''ping'' then send clientWs Pong st
               else st
           | None \<Rightarrow> if msg_type data = ''ping'' then send clientWs Pong st else st))"

definition newBufferAggregator :: "bool \<Rightarrow> bool \<Rightarrow> bool \<Rightarrow> BufferAggregator" where
  "newBufferAggregator hq registry store =
     \<lparr> clientSubscriptions = [], historySubscriptions = [], remoteConnections = [],
       isHQMode = hq, hasRemoteRegistry = registry, hasHistoryStore = store,
       sentToClient = [], sentToRemote = [], watcherSubscriptions = [],
       watcherUnsubscribed = [], storeSubscriptions = [], storeUnsubscribed = [] \<rparr>"

subsection \<open>Claim C9: a repeated subscribe\<close>

lemma map_of_mapSet: "map_of (mapSet k v entries) = (map_of entries)(k \<mapsto> v)"
  by (induction entries) auto

lemma map_of_mapDelete: "map_of (mapDelete k entries) = (map_of entries)(k := None)"
  by (induction entries) (auto simp add: mapDelete_def)

text \<open>No client ever holds a subscription to the empty text.\<close>

definition namedSessions :: "BufferAggregator \<Rightarrow> bool" where
  "namedSessions st \<longleftrightarrow>
     (\<forall>clientWs subscriptions. map_of (clientSubscriptions st) clientWs = Some subscriptions
        \<longrightarrow> map_of subscriptions [] = None)"

lemma send_clientSubscriptions: "clientSubscriptions (send ws message st) = clientSubscriptions st"
  by (simp add: send_def)

lemma namedSessions_send: "namedSessions (send ws message st) = namedSessions st"
  by (simp add: namedSessions_def send_def)

lemma namedSessions_setSubscription:
  "namedSessions st \<Longrightarrow> sessionId \<noteq> [] \<Longrightarrow> namedSessions (setSubscription ws sessionId u st)"
  by (auto simp add: namedSessions_def setSubscription_def map_of_mapSet split: option.splits)

lemma namedSessions_deleteSubscription:
  "namedSessions st \<Longrightarrow> namedSessions (deleteSubscription ws sessionId st)"
  by (auto simp add: namedSessions_def deleteSubscription_def map_of_mapSet map_of_mapDelete
      split: option.splits)

lemma namedSessions_other:
  "clientSubscriptions st' = clientSubscriptions st \<Longrightarrow> namedSessions st' = namedSessions st"
  by (simp add: namedSessions_def)

lemma ensureHistorySubscription_clients:
  "clientSubscriptions (ensureHistorySubscription sessionId st) = clientSubscriptions st"
  by (simp add: ensureHistorySubscription_def)

lemma sendCachedHistoryChunk_clients:
  "clientSubscriptions (sendCachedHistoryChunk env ws sessionId st) = clientSubscriptions st"
  by (simp add: sendCachedHistoryChunk_def send_def)

lemma cleanupHistorySubscription_clients:
  "clientSubscriptions (cleanupHistorySubscription sessionId st) = clientSubscriptions st"
  by (simp add: cleanupHistorySubscription_def split: option.splits)

lemma unsubscribeFromRemote_clients:
  "clientSubscriptions (unsubscribeFromRemote env sessionId st) = clientSubscriptions st"
  by (simp add: unsubscribeFromRemote_def Let_def split: option.splits)

lemma callUnsubscribe_clients:
  "clientSubscriptions (callUnsubscribe u st) = clientSubscriptions st"
  by (cases u) simp_all

lemma namedSessions_subscribeToLocalSession:
  assumes "namedSessions st" "sessionId \<noteq> []"
  shows "namedSessions (subscribeToLocalSession env ws sessionId st)"
proof -
  have "namedSessions (setSubscription ws sessionId u
      (st\<lparr>watcherSubscriptions := watcherSubscriptions st @ [sessionId]\<rparr>))" for u
    using assms by (intro namedSessions_setSubscription) (simp_all add: namedSessions_def)
  then show ?thesis
    using assms(1)
    by (simp add: subscribeToLocalSession_def Let_def namedSessions_send
        namedSessions_other [OF sendCachedHistoryChunk_clients]
        namedSessions_other [OF ensureHistorySubscription_clients]
        split: option.splits)
qed

lemma namedSessions_subscribeOnRemote:
  assumes "namedSessions st" "sessionId \<noteq> []"
  shows "namedSessions (subscribeOnRemote ws sessionId remoteId st)"
proof (cases "map_of (remoteConnections st) remoteId")
  case None
  then show ?thesis using assms(1) by (simp add: subscribeOnRemote_def)
next
  case (Some remoteConn)
  have "namedSessions (setSubscription ws sessionId RemoteUnsubscribe
      (st\<lparr>remoteConnections := rc, sentToRemote := sr\<rparr>))" for rc sr
    using assms by (intro namedSessions_setSubscription) (simp_all add: namedSessions_def)
  then show ?thesis
    by (simp add: subscribeOnRemote_def Some Let_def)
qed

lemma namedSessions_subscribeToRemoteSession:
  assumes "namedSessions st" "sessionId \<noteq> []"
  shows "namedSessions (subscribeToRemoteSession env ws sessionId remoteId st)"
proof -
  have "namedSessions (snd (connectToRemote env remoteId st))"
    using assms(1) by (simp add: connectToRemote_def namedSessions_def)
  then show ?thesis
    using assms
    by (auto simp add: subscribeToRemoteSession_def namedSessions_send
        namedSessions_subscribeOnRemote split: prod.splits option.splits)
qed

lemma namedSessions_handleClientMessage:
  assumes "namedSessions st"
  shows "namedSessions (handleClientMessage env ws data st)"
proof (cases "truthySessionId data")
  case None
  then show ?thesis
    using assms by (simp add: handleClientMessage_def namedSessions_send split: option.splits)
next
  case (Some sessionId)
  then have named: "sessionId \<noteq> []"
    by (auto simp add: truthySessionId_def split: option.splits if_splits)
  have unsub: "namedSessions (cleanupHistorySubscription sessionId
      (unsubscribeFromRemote env sessionId s))" if "namedSessions s" for s
    using that
    by (simp add: namedSessions_other [OF cleanupHistorySubscription_clients]
        namedSessions_other [OF unsubscribeFromRemote_clients])
  have del: "namedSessions (deleteSubscription ws sessionId (callUnsubscribe u st))" for u
    using assms
    by (intro namedSessions_deleteSubscription)
      (simp add: namedSessions_other [OF callUnsubscribe_clients])
  show ?thesis
    using assms named
    by (simp add: handleClientMessage_def Some Let_def namedSessions_send unsub del
        namedSessions_subscribeToLocalSession namedSessions_subscribeToRemoteSession
        split: option.splits)
qed

lemma namedSessions_handleClientConnection:
  "namedSessions st \<Longrightarrow> namedSessions (handleClientConnection ws st)"
  by (auto simp add: handleClientConnection_def namedSessions_def send_def map_of_mapSet)

lemma namedSessions_new: "namedSessions (newBufferAggregator hq registry store)"
  by (simp add: namedSessions_def newBufferAggregator_def)

text \<open>What happens to an aggregator: a client connects, or a message of a client is
  handled, with the answers of the outside during the handling.\<close>

datatype aggregator_event =
    ClientConnects nat
  | ClientSends environment nat client_message

fun applyAggregatorEvent :: "BufferAggregator \<Rightarrow> aggregator_event \<Rightarrow> BufferAggregator" where
  "applyAggregatorEvent st (ClientConnects ws) = handleClientConnection ws st"
| "applyAggregatorEvent st (ClientSends env ws data) = handleClientMessage env ws data st"

lemma namedSessions_reachable:
  "namedSessions st \<Longrightarrow> namedSessions (foldl applyAggregatorEvent st events)"
proof (induction events arbitrary: st)
  case Nil
  then show ?case by simp
next
  case (Cons event events)
  have "namedSessions (applyAggregatorEvent st event)"
    using Cons.prems
    by (cases event) (simp_all add: namedSessions_handleClientConnection namedSessions_handleClientMessage)
  from Cons.IH [OF this] show ?case by simp
qed

text \<open>
  Claim C9.  A client that holds a subscription to \<open>sessionId\<close> sends a subscribe message
  for \<open>sessionId\<close> again.  The session is named, \<open>data.sessionId\<close> being a text that is not
  empty, or else the state is one that an aggregator reaches by connections and
  messages, where no subscription to the empty text is ever held.  Whatever the outside
  would answer, the handler sends the client
  \<open>{type: 'subscribed', sessionId, dedup: true}\<close> and changes nothing else: the client's
  map, the other clients' maps and the history subscriptions are as before, no call of
  \<open>subscribeToBufferChanges\<close> and none of \<open>historyStore.subscribe\<close> is made, and nothing
  is sent to a remote server.  And \<open>ensureHistorySubscription\<close> on a session that has a
  history subscription changes nothing.
\<close>

theorem subscribe_idempotent:
  assumes client: "map_of (clientSubscriptions st) clientWs = Some subscriptions"
    and held: "map_of subscriptions sessionId = Some unsubscribe"
    and named: "sessionId \<noteq> []
        \<or> st = foldl applyAggregatorEvent (newBufferAggregator hq registry store) events"
    and st': "st' = handleClientMessage env clientWs
                \<lparr> msg_type = ''subscribe'', msg_sessionId = Some sessionId \<rparr> st"
  shows "st' = st\<lparr>sentToClient := sentToClient st @ [(clientWs, Subscribed sessionId True)]\<rparr>
    \<and> clientSubscriptions st' = clientSubscriptions st
    \<and> historySubscriptions st' = historySubscriptions st
    \<and> watcherSubscriptions st' = watcherSubscriptions st
    \<and> storeSubscriptions st' = storeSubscriptions st
    \<and> sentToRemote st' = sentToRemote st
    \<and> (mapHas (historySubscriptions st) sessionId \<longrightarrow> ensureHistorySubscription sessionId st = st)"
proof -
  have nonempty: "sessionId \<noteq> []"
  proof (cases "sessionId = []")
    case False
    then show ?thesis .
  next
    case True
    then have "st = foldl applyAggregatorEvent (newBufferAggregator hq registry store) events"
      using named by simp
    then have "namedSessions st"
      using namedSessions_reachable [OF namedSessions_new] by simp
    then have "map_of subscriptions [] = None"
      using client unfolding namedSessions_def by blast
    then show ?thesis
      using held True by simp
  qed
  have "st' = st\<lparr>sentToClient := sentToClient st @ [(clientWs, Subscribed sessionId True)]\<rparr>"
    using client held nonempty
    by (simp add: st' handleClientMessage_def truthySessionId_def mapHas_def send_def)
  then show ?thesis
    by (simp add: ensureHistorySubscription_def)
qed

definition localEnvironment :: environment where
  "localEnvironment =
     \<lparr> remoteOfSession = (\<lambda>sessionId. None), clientOpen = True, subscribeResolves = True,
       snapshotResolves = True, cachedChunk = False, connectResolves = False \<rparr>"

definition subscribedOnce :: BufferAggregator where
  "subscribedOnce =
     handleClientMessage localEnvironment 7 \<lparr> msg_type = ''subscribe'', msg_sessionId = Some ''s1'' \<rparr>
       (handleClientConnection 7 (newBufferAggregator False False True))"

lemma subscribedOnce_value:
  "subscribedOnce =
     \<lparr> clientSubscriptions = [(7, [(''s1'', WatcherUnsubscribe 0)])],
       historySubscriptions = [(''s1'', 0)], remoteConnections = [],
       isHQMode = False, hasRemoteRegistry = False, hasHistoryStore = True,
       sentToClient = [(7, Connected), (7, BufferUpdate ''s1''), (7, Subscribed ''s1'' False)],
       sentToRemote = [], watcherSubscriptions = [''s1''],
       watcherUnsubscribed = [], storeSubscriptions = [''s1''], storeUnsubscribed = [] \<rparr>"
  by (simp add: subscribedOnce_def localEnvironment_def newBufferAggregator_def
      handleClientConnection_def handleClientMessage_def truthySessionId_def mapHas_def send_def
      subscribeToLocalSession_def setSubscription_def ensureHistorySubscription_def
      sendCachedHistoryChunk_def Let_def)

theorem subscribe_idempotent_witness:
  "handleClientMessage localEnvironment 7 \<lparr> msg_type = ''subscribe'', msg_sessionId = Some ''s1'' \<rparr>
       subscribedOnce
     = subscribedOnce\<lparr>sentToClient :=
         [(7, Connected), (7, BufferUpdate ''s1''), (7, Subscribed ''s1'' False),
          (7, Subscribed ''s1'' True)]\<rparr>
   \<and> watcherSubscriptions (handleClientMessage localEnvironment 7
         \<lparr> msg_type = ''subscribe'', msg_sessionId = Some ''s1'' \<rparr> subscribedOnce) = [''s1'']
   \<and> storeSubscriptions (handleClientMessage localEnvironment 7
         \<lparr> msg_type = ''subscribe'', msg_sessionId = Some ''s1'' \<rparr> subscribedOnce) = [''s1'']"
proof -
  have client: "map_of (clientSubscriptions subscribedOnce) 7 = Some [(''s1'', WatcherUnsubscribe 0)]"
    and held: "map_of [(''s1'', WatcherUnsubscribe 0)] ''s1'' = Some (WatcherUnsubscribe 0)"
    and named: "''s1'' \<noteq> []"
    by (simp_all add: subscribedOnce_value)
  from subscribe_idempotent [OF client held disjI1 [OF named] refl, of localEnvironment]
  show ?thesis
    by (simp add: subscribedOnce_value)
qed


section \<open>Stream watcher: the clients of a session\<close>

text \<open>
  \<open>activeWatchers\<close> maps a session to its watcher state: the set of attached clients, in
  the order of their arrival, and the file watcher once \<open>fs.watch\<close> has returned one.  A
  client object is made by each \<open>addClient\<close> and told from the others by \<open>sc_id\<close>; a
  response object is a number.  Next to the map stands what the stream watcher does to
  the outside: the file watchers that \<open>fs.watch\<close> returned, with their session
  (\<open>watchersCreated\<close>, the \<open>i\<close>-th being the watcher \<open>i\<close>), the watchers closed, the calls
  of \<open>sendExistingContent\<close>, and the calls made to the git watcher.
\<close>

record StreamClient =
  sc_id :: nat
  sc_response :: nat

record WatcherInfo =
  wi_clients :: "StreamClient list"
  wi_watcher :: "nat option"
  wi_lastOffset :: int
  wi_lastSize :: int
  wi_lastMtime :: int
  wi_lineBuffer :: string

datatype git_call =
    GitStartWatching string nat
  | GitAddClient string nat
  | GitRemoveClient string nat
  | GitStopWatching string

record StreamWatcher =
  activeWatchers :: "(string \<times> WatcherInfo) list"
  clientsMade :: nat
  watchersCreated :: "string list"
  watchersClosed :: "nat list"
  existingContentSent :: "(string \<times> nat) list"
  gitCalls :: "git_call list"

text \<open>
  What the file system answers during \<open>addClient\<close>: \<open>fs.existsSync\<close> and \<open>fs.statSync\<close>
  on the stream file, and whether \<open>fs.watch\<close> returns a watcher or throws, as it does on
  a file that does not exist.
\<close>

datatype stat_result =
    NoFile
  | FileStats int int
  | StatThrows

record file_system =
  fs_stat :: stat_result
  fs_watchReturns :: bool

datatype call_outcome = Returned | Threw

definition updateWatcherInfo ::
  "string \<Rightarrow> (WatcherInfo \<Rightarrow> WatcherInfo) \<Rightarrow> StreamWatcher \<Rightarrow> StreamWatcher" where
  "updateWatcherInfo sessionId change st =
     (case map_of (activeWatchers st) sessionId of
        None \<Rightarrow> st
      | Some watcherInfo \<Rightarrow>
          st\<lparr>activeWatchers := mapSet sessionId (change watcherInfo) (activeWatchers st)\<rparr>)"

text \<open>Lines 913-1243 as far as this state goes: the replay reads the file and writes to
  the client, and catches what is thrown.\<close>

definition sendExistingContentTo :: "string \<Rightarrow> StreamClient \<Rightarrow> StreamWatcher \<Rightarrow> StreamWatcher" where
  "sendExistingContentTo sessionId client st =
     st\<lparr>existingContentSent := existingContentSent st @ [(sessionId, sc_response client)]\<rparr>"

text \<open>Lines 1248-1301: \<open>watcherInfo.watcher = fs.watch(...)\<close>.\<close>

definition startWatching :: "file_system \<Rightarrow> string \<Rightarrow> StreamWatcher \<Rightarrow> call_outcome \<times> StreamWatcher" where
  "startWatching fs sessionId st =
     (if \<not> fs_watchReturns fs then (Threw, st)
      else (Returned,
            updateWatcherInfo sessionId (\<lambda>info. info\<lparr>wi_watcher := Some (length (watchersCreated st))\<rparr>)
              (st\<lparr>watchersCreated := watchersCreated st @ [sessionId]\<rparr>)))"

text \<open>Line 860, \<open>watcherInfo.clients.add(client)\<close>.\<close>

definition addToClients :: "string \<Rightarrow> StreamClient \<Rightarrow> StreamWatcher \<Rightarrow> StreamWatcher" where
  "addToClients sessionId client st =
     updateWatcherInfo sessionId
       (\<lambda>info. info\<lparr>wi_clients := (if client \<in> set (wi_clients info) then wi_clients info
                                       else wi_clients info @ [client])\<rparr>) st"

text \<open>Lines 808-864.  What is thrown by \<open>fs.statSync\<close> or \<open>fs.watch\<close> leaves
  \<open>addClient\<close> at that point, with the state as it then is.\<close>

definition addClient ::
  "file_system \<Rightarrow> string \<Rightarrow> nat \<Rightarrow> StreamWatcher \<Rightarrow> call_outcome \<times> StreamWatcher" where
  "addClient fs sessionId response st =
     (let client = \<lparr> sc_id = clientsMade st, sc_response = response \<rparr>;
          st0 = st\<lparr>clientsMade := clientsMade st + 1\<rparr>
      in case map_of (activeWatchers st0) sessionId of
           None \<Rightarrow>
             (let watcherInfo = \<lparr> wi_clients = [], wi_watcher = None, wi_lastOffset = 0,
                                  wi_lastSize = 0, wi_lastMtime = 0, wi_lineBuffer = [] \<rparr>;
                  st1 = st0\<lparr>activeWatchers := mapSet sessionId watcherInfo (activeWatchers st0)\<rparr>;
                  st2 = sendExistingContentTo sessionId client st1
              in case fs_stat fs of
                   StatThrows \<Rightarrow> (Threw, st2)
                 | stats \<Rightarrow>
                     (let st3 = (case stats of
                                   FileStats statSize mtimeMs \<Rightarrow>
                                     updateWatcherInfo sessionId
                                       (\<lambda>info. info\<lparr>wi_lastOffset := statSize, wi_lastSize := statSize,
                                                      wi_lastMtime := mtimeMs\<rparr>) st2
                                 | _ \<Rightarrow> st2)
                      in case startWatching fs sessionId st3 of
                           (Threw, st4) \<Rightarrow> (Threw, st4)
                         | (Returned, st4) \<Rightarrow>
                             (Returned,
                              addToClients sessionId client
                                (st4\<lparr>gitCalls := gitCalls st4 @ [GitStartWatching sessionId response]\<rparr>))))
         | Some watcherInfo \<Rightarrow>
             (let st1 = sendExistingContentTo sessionId client st0;
                  st2 = st1\<lparr>gitCalls := gitCalls st1 @ [GitAddClient sessionId response]\<rparr>
              in (Returned, addToClients sessionId client st2)))"

text \<open>Lines 869-908.\<close>

definition removeClient :: "string \<Rightarrow> nat \<Rightarrow> StreamWatcher \<Rightarrow> StreamWatcher" where
  "removeClient sessionId response st =
     (case map_of (activeWatchers st) sessionId of
        None \<Rightarrow> st
      | Some watcherInfo \<Rightarrow>
          (case find (\<lambda>client. sc_response client = response) (wi_clients watcherInfo) of
             None \<Rightarrow> st
           | Some clientToRemove \<Rightarrow>
               (let remaining = removeAll clientToRemove (wi_clients watcherInfo);
                    st1 = updateWatcherInfo sessionId (\<lambda>info. info\<lparr>wi_clients := remaining\<rparr>) st;
                    st2 = st1\<lparr>gitCalls := gitCalls st1 @ [GitRemoveClient sessionId response]\<rparr>
                in if length remaining = 0 then
                     (let st3 = (case wi_watcher watcherInfo of
                                   Some fileWatcher \<Rightarrow>
                                     st2\<lparr>watchersClosed := watchersClosed st2 @ [fileWatcher]\<rparr>
                                 | None \<Rightarrow> st2)
                      in st3\<lparr>activeWatchers := mapDelete sessionId (activeWatchers st3),
                             gitCalls := gitCalls st3 @ [GitStopWatching sessionId]\<rparr>)
                   else st2)))"

definition newStreamWatcher :: StreamWatcher where
  "newStreamWatcher =
     \<lparr> activeWatchers = [], clientsMade = 0, watchersCreated = [], watchersClosed = [],
       existingContentSent = [], gitCalls = [] \<rparr>"


subsection \<open>Claim C3: one file watcher per session with clients\<close>

definition watcherInfoOf :: "StreamWatcher \<Rightarrow> string \<Rightarrow> WatcherInfo option" where
  "watcherInfoOf st sessionId = map_of (activeWatchers st) sessionId"

text \<open>The invariant of the claim: a session has an entry only with clients attached.\<close>

definition entriesHaveClients :: "StreamWatcher \<Rightarrow> bool" where
  "entriesHaveClients st \<longleftrightarrow>
     (\<forall>sessionId watcherInfo. watcherInfoOf st sessionId = Some watcherInfo
        \<longrightarrow> wi_clients watcherInfo \<noteq> [])"

lemma watcherInfoOf_update:
  "watcherInfoOf (updateWatcherInfo sessionId change st) s =
     (if s = sessionId then map_option change (watcherInfoOf st sessionId) else watcherInfoOf st s)"
  by (simp add: watcherInfoOf_def updateWatcherInfo_def map_of_mapSet split: option.splits)

lemma updateWatcherInfo_fields:
  "clientsMade (updateWatcherInfo sessionId change st) = clientsMade st"
  "watchersCreated (updateWatcherInfo sessionId change st) = watchersCreated st"
  "watchersClosed (updateWatcherInfo sessionId change st) = watchersClosed st"
  "existingContentSent (updateWatcherInfo sessionId change st) = existingContentSent st"
  "gitCalls (updateWatcherInfo sessionId change st) = gitCalls st"
  by (simp_all add: updateWatcherInfo_def split: option.splits)

text \<open>The first client of a session, when the file system lets \<open>addClient\<close> through.\<close>

lemma addClient_first:
  assumes none: "watcherInfoOf st sessionId = None"
    and stat: "fs_stat fs \<noteq> StatThrows"
    and watch: "fs_watchReturns fs"
  shows "fst (addClient fs sessionId response st) = Returned"
    and "watcherInfoOf (snd (addClient fs sessionId response st)) s =
          (if s = sessionId
           then Some \<lparr> wi_clients = [\<lparr> sc_id = clientsMade st, sc_response = response \<rparr>],
                        wi_watcher = Some (length (watchersCreated st)),
                        wi_lastOffset = (case fs_stat fs of FileStats statSize mtimeMs \<Rightarrow> statSize | _ \<Rightarrow> 0),
                        wi_lastSize = (case fs_stat fs of FileStats statSize mtimeMs \<Rightarrow> statSize | _ \<Rightarrow> 0),
                        wi_lastMtime = (case fs_stat fs of FileStats statSize mtimeMs \<Rightarrow> mtimeMs | _ \<Rightarrow> 0),
                        wi_lineBuffer = [] \<rparr>
           else watcherInfoOf st s)"
    and "watchersCreated (snd (addClient fs sessionId response st)) = watchersCreated st @ [sessionId]"
    and "watchersClosed (snd (addClient fs sessionId response st)) = watchersClosed st"
    and "clientsMade (snd (addClient fs sessionId response st)) = clientsMade st + 1"
  using assms
  by (cases "fs_stat fs";
      simp add: addClient_def Let_def startWatching_def addToClients_def sendExistingContentTo_def
        watcherInfoOf_def updateWatcherInfo_def map_of_mapSet)+

text \<open>A further client of a session that has an entry.\<close>

lemma addClient_further:
  assumes some: "watcherInfoOf st sessionId = Some watcherInfo"
    and fresh: "\<forall>client \<in> set (wi_clients watcherInfo). sc_id client < clientsMade st"
  shows "fst (addClient fs sessionId response st) = Returned"
    and "watcherInfoOf (snd (addClient fs sessionId response st)) s =
          (if s = sessionId
           then Some (watcherInfo\<lparr>wi_clients := wi_clients watcherInfo
                        @ [\<lparr> sc_id = clientsMade st, sc_response = response \<rparr>]\<rparr>)
           else watcherInfoOf st s)"
    and "watchersCreated (snd (addClient fs sessionId response st)) = watchersCreated st"
    and "watchersClosed (snd (addClient fs sessionId response st)) = watchersClosed st"
    and "clientsMade (snd (addClient fs sessionId response st)) = clientsMade st + 1"
proof -
  have new: "\<lparr> sc_id = clientsMade st, sc_response = response \<rparr> \<notin> set (wi_clients watcherInfo)"
    using fresh by fastforce
  show "fst (addClient fs sessionId response st) = Returned"
    and "watcherInfoOf (snd (addClient fs sessionId response st)) s =
          (if s = sessionId
           then Some (watcherInfo\<lparr>wi_clients := wi_clients watcherInfo
                        @ [\<lparr> sc_id = clientsMade st, sc_response = response \<rparr>]\<rparr>)
           else watcherInfoOf st s)"
    and "watchersCreated (snd (addClient fs sessionId response st)) = watchersCreated st"
    and "watchersClosed (snd (addClient fs sessionId response st)) = watchersClosed st"
    and "clientsMade (snd (addClient fs sessionId response st)) = clientsMade st + 1"
    using some new
    by (simp_all add: addClient_def Let_def addToClients_def sendExistingContentTo_def
        watcherInfoOf_def updateWatcherInfo_def map_of_mapSet)
qed

text \<open>The removal of a client that is attached.\<close>

lemma removeClient_attached:
  assumes some: "watcherInfoOf st sessionId = Some watcherInfo"
    and found: "find (\<lambda>client. sc_response client = response) (wi_clients watcherInfo) = Some client"
  shows "watcherInfoOf (removeClient sessionId response st) s =
          (if s = sessionId
           then (if removeAll client (wi_clients watcherInfo) = [] then None
                 else Some (watcherInfo\<lparr>wi_clients := removeAll client (wi_clients watcherInfo)\<rparr>))
           else watcherInfoOf st s)"
    and "watchersCreated (removeClient sessionId response st) = watchersCreated st"
    and "watchersClosed (removeClient sessionId response st) =
          (if removeAll client (wi_clients watcherInfo) = []
           then watchersClosed st @ (case wi_watcher watcherInfo of None \<Rightarrow> [] | Some w \<Rightarrow> [w])
           else watchersClosed st)"
    and "clientsMade (removeClient sessionId response st) = clientsMade st"
  using some found
  by (simp_all add: removeClient_def Let_def watcherInfoOf_def updateWatcherInfo_def
      map_of_mapSet map_of_mapDelete split: option.splits)

lemma removeClient_absent:
  assumes "watcherInfoOf st sessionId = None
      \<or> (\<exists>watcherInfo. watcherInfoOf st sessionId = Some watcherInfo
            \<and> find (\<lambda>client. sc_response client = response) (wi_clients watcherInfo) = None)"
  shows "removeClient sessionId response st = st"
  using assms by (auto simp add: removeClient_def watcherInfoOf_def)


text \<open>
  What holds of the states reached while the file system lets every first \<open>addClient\<close>
  of a session through: every entry has clients, and its own file watcher, created and
  not closed.
\<close>

definition watcherInv :: "StreamWatcher \<Rightarrow> bool" where
  "watcherInv st \<longleftrightarrow>
     (\<forall>w \<in> set (watchersClosed st). w < length (watchersCreated st))
     \<and> (\<forall>sessionId watcherInfo. watcherInfoOf st sessionId = Some watcherInfo \<longrightarrow>
           wi_clients watcherInfo \<noteq> [] \<and> distinct (wi_clients watcherInfo)
           \<and> (\<forall>client \<in> set (wi_clients watcherInfo). sc_id client < clientsMade st)
           \<and> (\<exists>w. wi_watcher watcherInfo = Some w \<and> w < length (watchersCreated st)
                  \<and> watchersCreated st ! w = sessionId \<and> w \<notin> set (watchersClosed st)))"

lemma watcherInv_entries: "watcherInv st \<Longrightarrow> entriesHaveClients st"
  unfolding watcherInv_def entriesHaveClients_def by blast

lemma watcherInv_new: "watcherInv newStreamWatcher"
  by (simp add: watcherInv_def watcherInfoOf_def newStreamWatcher_def)

lemma watcherInv_addClient:
  assumes inv: "watcherInv st"
    and fs: "watcherInfoOf st sessionId = None \<longrightarrow> fs_stat fs \<noteq> StatThrows \<and> fs_watchReturns fs"
  shows "fst (addClient fs sessionId response st) = Returned"
    and "watcherInv (snd (addClient fs sessionId response st))"
proof -
  let ?st' = "snd (addClient fs sessionId response st)"
  have closed: "\<forall>w \<in> set (watchersClosed st). w < length (watchersCreated st)"
    and entries: "\<And>s info. watcherInfoOf st s = Some info \<Longrightarrow>
           wi_clients info \<noteq> [] \<and> distinct (wi_clients info)
           \<and> (\<forall>client \<in> set (wi_clients info). sc_id client < clientsMade st)
           \<and> (\<exists>w. wi_watcher info = Some w \<and> w < length (watchersCreated st)
                  \<and> watchersCreated st ! w = s \<and> w \<notin> set (watchersClosed st))"
    using inv unfolding watcherInv_def by blast+
  show "fst (addClient fs sessionId response st) = Returned"
  proof (cases "watcherInfoOf st sessionId")
    case None
    then show ?thesis using fs by (simp add: addClient_first)
  next
    case (Some info)
    then show ?thesis using entries [OF Some] by (simp add: addClient_further)
  qed
  show "watcherInv ?st'"
  proof (cases "watcherInfoOf st sessionId")
    case None
    note first = addClient_first [OF None, of fs response]
    have fs': "fs_stat fs \<noteq> StatThrows" "fs_watchReturns fs"
      using fs None by simp_all
    have "wi_clients info \<noteq> [] \<and> distinct (wi_clients info)
           \<and> (\<forall>client \<in> set (wi_clients info). sc_id client < clientsMade st + 1)
           \<and> (\<exists>w. wi_watcher info = Some w \<and> w < length (watchersCreated st @ [sessionId])
                  \<and> (watchersCreated st @ [sessionId]) ! w = s \<and> w \<notin> set (watchersClosed st))"
      if "watcherInfoOf ?st' s = Some info" for s info
    proof (cases "s = sessionId")
      case True
      then show ?thesis
        using that closed by (auto simp add: first(2) [OF fs'])
    next
      case False
      then have "watcherInfoOf st s = Some info"
        using that by (simp add: first(2) [OF fs'])
      from entries [OF this] show ?thesis
        by (auto simp add: nth_append less_Suc_eq)
    qed
    moreover have "\<forall>w \<in> set (watchersClosed st). w < length (watchersCreated st @ [sessionId])"
      using closed by auto
    ultimately show ?thesis
      unfolding watcherInv_def first(3) [OF fs'] first(4) [OF fs'] first(5) [OF fs'] by blast
  next
    case (Some old)
    have fresh: "\<forall>client \<in> set (wi_clients old). sc_id client < clientsMade st"
      using entries [OF Some] by blast
    note further = addClient_further [OF Some fresh, of fs response]
    have "wi_clients info \<noteq> [] \<and> distinct (wi_clients info)
           \<and> (\<forall>client \<in> set (wi_clients info). sc_id client < clientsMade st + 1)
           \<and> (\<exists>w. wi_watcher info = Some w \<and> w < length (watchersCreated st)
                  \<and> watchersCreated st ! w = s \<and> w \<notin> set (watchersClosed st))"
      if "watcherInfoOf ?st' s = Some info" for s info
    proof (cases "s = sessionId")
      case True
      then have "info = old\<lparr>wi_clients := wi_clients old
                        @ [\<lparr> sc_id = clientsMade st, sc_response = response \<rparr>]\<rparr>"
        using that by (simp add: further(2))
      then show ?thesis
        using entries [OF Some] True by (auto simp add: less_Suc_eq)
    next
      case False
      then have "watcherInfoOf st s = Some info"
        using that by (simp add: further(2))
      from entries [OF this] show ?thesis
        by (auto simp add: less_Suc_eq)
    qed
    then show ?thesis
      unfolding watcherInv_def further(3) further(4) further(5) using closed by blast
  qed
qed

lemma watcherInv_removeClient:
  assumes inv: "watcherInv st"
  shows "watcherInv (removeClient sessionId response st)"
proof (cases "watcherInfoOf st sessionId")
  case None
  then show ?thesis using inv by (simp add: removeClient_absent)
next
  case (Some old)
  have closed: "\<forall>w \<in> set (watchersClosed st). w < length (watchersCreated st)"
    and entries: "\<And>s info. watcherInfoOf st s = Some info \<Longrightarrow>
           wi_clients info \<noteq> [] \<and> distinct (wi_clients info)
           \<and> (\<forall>client \<in> set (wi_clients info). sc_id client < clientsMade st)
           \<and> (\<exists>w. wi_watcher info = Some w \<and> w < length (watchersCreated st)
                  \<and> watchersCreated st ! w = s \<and> w \<notin> set (watchersClosed st))"
    using inv unfolding watcherInv_def by blast+
  show ?thesis
  proof (cases "find (\<lambda>client. sc_response client = response) (wi_clients old)")
    case None
    then show ?thesis using inv Some by (simp add: removeClient_absent)
  next
    case (Some client)
    note removed = removeClient_attached [OF \<open>watcherInfoOf st sessionId = Some old\<close> Some]
    let ?st' = "removeClient sessionId response st"
    obtain w where w: "wi_watcher old = Some w" "w < length (watchersCreated st)"
      "watchersCreated st ! w = sessionId" "w \<notin> set (watchersClosed st)"
      using entries [OF \<open>watcherInfoOf st sessionId = Some old\<close>] by blast
    have "wi_clients info \<noteq> [] \<and> distinct (wi_clients info)
           \<and> (\<forall>client \<in> set (wi_clients info). sc_id client < clientsMade st)
           \<and> (\<exists>w. wi_watcher info = Some w \<and> w < length (watchersCreated st)
                  \<and> watchersCreated st ! w = s \<and> w \<notin> set (watchersClosed ?st'))"
      if "watcherInfoOf ?st' s = Some info" for s info
    proof (cases "s = sessionId")
      case True
      then have rest: "removeAll client (wi_clients old) \<noteq> []"
        and info: "info = old\<lparr>wi_clients := removeAll client (wi_clients old)\<rparr>"
        using that by (simp_all add: removed(1) split: if_splits)
      show ?thesis
        using entries [OF \<open>watcherInfoOf st sessionId = Some old\<close>] rest True
        by (auto simp add: info removed(3) distinct_removeAll)
    next
      case False
      then have other: "watcherInfoOf st s = Some info"
        using that by (simp add: removed(1))
      then obtain w' where w': "wi_watcher info = Some w'" "w' < length (watchersCreated st)"
        "watchersCreated st ! w' = s" "w' \<notin> set (watchersClosed st)"
        using entries [OF other] by blast
      have "w' \<noteq> w"
        using w(3) w'(3) False by auto
      then have "w' \<notin> set (watchersClosed ?st')"
        using w'(4) w(1) by (simp add: removed(3))
      then show ?thesis
        using entries [OF other] w' by auto
    qed
    moreover have "\<forall>w \<in> set (watchersClosed ?st'). w < length (watchersCreated st)"
      using closed w by (auto simp add: removed(3))
    ultimately show ?thesis
      unfolding watcherInv_def removed(2) removed(4) by blast
  qed
qed

text \<open>
  The sequence of the claim, on a session without entry and for responses \<open>a\<close> and
  \<open>b\<close>, when \<open>fs.statSync\<close> and \<open>fs.watch\<close> do not throw: the watcher is created at the
  first \<open>addClient\<close> and at no other step, it is open with \<open>b\<close> attached after \<open>a\<close> is
  removed, and the removal of \<open>b\<close> closes it and deletes the entry.
\<close>

lemma shared_watcher_sequence:
  assumes none: "watcherInfoOf st sessionId = None"
    and stat: "fs_stat fs \<noteq> StatThrows" and watch: "fs_watchReturns fs"
    and s1: "s1 = snd (addClient fs sessionId a st)"
    and s2: "s2 = snd (addClient fs' sessionId b s1)"
    and s3: "s3 = removeClient sessionId a s2"
    and s4: "s4 = removeClient sessionId b s3"
  shows "watchersCreated s1 = watchersCreated st @ [sessionId]"
    and "watchersCreated s2 = watchersCreated s1 \<and> watchersCreated s3 = watchersCreated s1
         \<and> watchersCreated s4 = watchersCreated s1"
    and "watchersClosed s1 = watchersClosed st \<and> watchersClosed s2 = watchersClosed st
         \<and> watchersClosed s3 = watchersClosed st"
    and "map_option wi_watcher (watcherInfoOf s3 sessionId) = Some (Some (length (watchersCreated st)))"
    and "map_option wi_clients (watcherInfoOf s3 sessionId) =
           Some [\<lparr> sc_id = clientsMade st + 1, sc_response = b \<rparr>]"
    and "watchersClosed s4 = watchersClosed st @ [length (watchersCreated st)]"
    and "watcherInfoOf s4 sessionId = None"
proof -
  define ca where "ca = \<lparr> sc_id = clientsMade st, sc_response = a \<rparr>"
  define cb where "cb = \<lparr> sc_id = clientsMade st + 1, sc_response = b \<rparr>"
  define i1 where "i1 = \<lparr> wi_clients = [ca],
                        wi_watcher = Some (length (watchersCreated st)),
                        wi_lastOffset = (case fs_stat fs of FileStats statSize mtimeMs \<Rightarrow> statSize | _ \<Rightarrow> 0),
                        wi_lastSize = (case fs_stat fs of FileStats statSize mtimeMs \<Rightarrow> statSize | _ \<Rightarrow> 0),
                        wi_lastMtime = (case fs_stat fs of FileStats statSize mtimeMs \<Rightarrow> mtimeMs | _ \<Rightarrow> 0),
                        wi_lineBuffer = [] \<rparr>"
  note first = addClient_first [OF none stat watch, of a]
  have e1: "watcherInfoOf s1 sessionId = Some i1"
    and c1: "watchersCreated s1 = watchersCreated st @ [sessionId]"
    and x1: "watchersClosed s1 = watchersClosed st"
    and m1: "clientsMade s1 = clientsMade st + 1"
    unfolding s1 i1_def ca_def by (simp_all add: first)
  have fresh: "\<forall>client \<in> set (wi_clients i1). sc_id client < clientsMade s1"
    by (simp add: i1_def ca_def m1)
  note further = addClient_further [OF e1 fresh, of fs' b]
  have e2: "watcherInfoOf s2 sessionId = Some (i1\<lparr>wi_clients := [ca, cb]\<rparr>)"
    and c2: "watchersCreated s2 = watchersCreated s1"
    and x2: "watchersClosed s2 = watchersClosed st"
    unfolding s2 by (simp_all add: further m1 x1 cb_def i1_def)
  have f2: "find (\<lambda>client. sc_response client = a) (wi_clients (i1\<lparr>wi_clients := [ca, cb]\<rparr>)) = Some ca"
    by (simp add: ca_def)
  note removed = removeClient_attached [OF e2 f2]
  have r2: "ca \<noteq> cb"
    by (simp add: ca_def cb_def)
  have e3: "watcherInfoOf s3 sessionId = Some (i1\<lparr>wi_clients := [cb]\<rparr>)"
    and c3: "watchersCreated s3 = watchersCreated s1"
    and x3: "watchersClosed s3 = watchersClosed st"
    unfolding s3 by (simp_all add: removed r2 c2 x2)
  have f3: "find (\<lambda>client. sc_response client = b) (wi_clients (i1\<lparr>wi_clients := [cb]\<rparr>)) = Some cb"
    by (simp add: cb_def)
  note last = removeClient_attached [OF e3 f3]
  have e4: "watcherInfoOf s4 sessionId = None"
    and c4: "watchersCreated s4 = watchersCreated s1"
    and x4: "watchersClosed s4 = watchersClosed st @ [length (watchersCreated st)]"
    unfolding s4 by (simp_all add: last c3 x3 i1_def)
  show "watchersCreated s1 = watchersCreated st @ [sessionId]" by (rule c1)
  show "watchersCreated s2 = watchersCreated s1 \<and> watchersCreated s3 = watchersCreated s1
         \<and> watchersCreated s4 = watchersCreated s1"
    by (simp add: c2 c3 c4)
  show "watchersClosed s1 = watchersClosed st \<and> watchersClosed s2 = watchersClosed st
         \<and> watchersClosed s3 = watchersClosed st"
    by (simp add: x1 x2 x3)
  show "map_option wi_watcher (watcherInfoOf s3 sessionId) = Some (Some (length (watchersCreated st)))"
    by (simp add: e3 i1_def)
  show "map_option wi_clients (watcherInfoOf s3 sessionId) =
           Some [\<lparr> sc_id = clientsMade st + 1, sc_response = b \<rparr>]"
    by (simp add: e3 cb_def)
  show "watchersClosed s4 = watchersClosed st @ [length (watchersCreated st)]" by (rule x4)
  show "watcherInfoOf s4 sessionId = None" by (rule e4)
qed


text \<open>
  Claim C3 fails on the code.  \<open>addClient\<close> stores the session's entry, with an empty
  client set, before it calls \<open>fs.watch\<close>, and nothing catches what \<open>fs.watch\<close> throws.
  On a stream file that does not exist yet (the case that \<open>addClient\<close> logs) \<open>fs.watch\<close>
  throws: \<open>addClient\<close> is left with the entry stored, no client attached and no watcher,
  so the session has an entry while its client set is empty.  The next \<open>addClient\<close> of
  the session, the file now being there, finds the entry and takes the branch that
  creates no watcher: the client is attached to a session that no file watcher serves.
\<close>

theorem failed_watch_leaves_entry:
  "addClient \<lparr> fs_stat = NoFile, fs_watchReturns = False \<rparr> ''s'' 1 newStreamWatcher =
     (Threw,
      \<lparr> activeWatchers = [(''s'', \<lparr> wi_clients = [], wi_watcher = None, wi_lastOffset = 0,
                                    wi_lastSize = 0, wi_lastMtime = 0, wi_lineBuffer = [] \<rparr>)],
        clientsMade = 1, watchersCreated = [], watchersClosed = [],
        existingContentSent = [(''s'', 1)], gitCalls = [] \<rparr>)
   \<and> map_option wi_clients (watcherInfoOf
        \<lparr> activeWatchers = [(''s'', \<lparr> wi_clients = [], wi_watcher = None, wi_lastOffset = 0,
                                      wi_lastSize = 0, wi_lastMtime = 0, wi_lineBuffer = [] \<rparr>)],
          clientsMade = 1, watchersCreated = [], watchersClosed = [],
          existingContentSent = [(''s'', 1)], gitCalls = [] \<rparr> ''s'') = Some []
   \<and> addClient \<lparr> fs_stat = FileStats 10 5, fs_watchReturns = True \<rparr> ''s'' 2
        \<lparr> activeWatchers = [(''s'', \<lparr> wi_clients = [], wi_watcher = None, wi_lastOffset = 0,
                                      wi_lastSize = 0, wi_lastMtime = 0, wi_lineBuffer = [] \<rparr>)],
          clientsMade = 1, watchersCreated = [], watchersClosed = [],
          existingContentSent = [(''s'', 1)], gitCalls = [] \<rparr> =
     (Returned,
      \<lparr> activeWatchers = [(''s'', \<lparr> wi_clients = [\<lparr> sc_id = 1, sc_response = 2 \<rparr>],
                                    wi_watcher = None, wi_lastOffset = 0,
                                    wi_lastSize = 0, wi_lastMtime = 0, wi_lineBuffer = [] \<rparr>)],
        clientsMade = 2, watchersCreated = [], watchersClosed = [],
        existingContentSent = [(''s'', 1), (''s'', 2)], gitCalls = [GitAddClient ''s'' 2] \<rparr>)"
proof -
  have one: "addClient \<lparr> fs_stat = NoFile, fs_watchReturns = False \<rparr> ''s'' 1 newStreamWatcher =
     (Threw,
      \<lparr> activeWatchers = [(''s'', \<lparr> wi_clients = [], wi_watcher = None, wi_lastOffset = 0,
                                    wi_lastSize = 0, wi_lastMtime = 0, wi_lineBuffer = [] \<rparr>)],
        clientsMade = 1, watchersCreated = [], watchersClosed = [],
        existingContentSent = [(''s'', 1)], gitCalls = [] \<rparr>)"
    by (simp add: addClient_def newStreamWatcher_def Let_def sendExistingContentTo_def
        startWatching_def)
  have two: "map_option wi_clients (watcherInfoOf
        \<lparr> activeWatchers = [(''s'', \<lparr> wi_clients = [], wi_watcher = None, wi_lastOffset = 0,
                                      wi_lastSize = 0, wi_lastMtime = 0, wi_lineBuffer = [] \<rparr>)],
          clientsMade = 1, watchersCreated = [], watchersClosed = [],
          existingContentSent = [(''s'', 1)], gitCalls = [] \<rparr> ''s'') = Some []"
    by (simp add: watcherInfoOf_def)
  have three: "addClient \<lparr> fs_stat = FileStats 10 5, fs_watchReturns = True \<rparr> ''s'' 2
        \<lparr> activeWatchers = [(''s'', \<lparr> wi_clients = [], wi_watcher = None, wi_lastOffset = 0,
                                      wi_lastSize = 0, wi_lastMtime = 0, wi_lineBuffer = [] \<rparr>)],
          clientsMade = 1, watchersCreated = [], watchersClosed = [],
          existingContentSent = [(''s'', 1)], gitCalls = [] \<rparr> =
     (Returned,
      \<lparr> activeWatchers = [(''s'', \<lparr> wi_clients = [\<lparr> sc_id = 1, sc_response = 2 \<rparr>],
                                    wi_watcher = None, wi_lastOffset = 0,
                                    wi_lastSize = 0, wi_lastMtime = 0, wi_lineBuffer = [] \<rparr>)],
        clientsMade = 2, watchersCreated = [], watchersClosed = [],
        existingContentSent = [(''s'', 1), (''s'', 2)], gitCalls = [GitAddClient ''s'' 2] \<rparr>)"
    by (simp add: addClient_def Let_def sendExistingContentTo_def addToClients_def
        updateWatcherInfo_def)
  show ?thesis
    using one two three by blast
qed

end
